theory Spec2Isabelle
  imports Main "HOL-Library.Sublist" "HOL-Library.Char_ord" "HOL-Library.List_Lexorder"
begin

section \<open>Requests and string helpers of the service worker\<close>

text \<open>
  The service worker (\<^verbatim>\<open>src/sw/service-worker.js\<close>) inspects a fetch request through
  \<^verbatim>\<open>request.method\<close>, \<^verbatim>\<open>request.mode\<close>, \<^verbatim>\<open>request.destination\<close>, \<^verbatim>\<open>url.hostname\<close>,
  \<^verbatim>\<open>url.pathname\<close> and \<^verbatim>\<open>url.searchParams\<close>. The full URL (\<^verbatim>\<open>request.url\<close>) is the key
  under which Workbox stores a response. The field \<open>rmethod\<close> is \<^verbatim>\<open>request.method\<close>.
\<close>

record request =
  rmethod :: string
  mode :: string
  destination :: string
  hostname :: string
  pathname :: string
  searchParams :: "(string \<times> string) list"
  href :: string

text \<open>\<^verbatim>\<open>String.prototype.startsWith\<close> and \<^verbatim>\<open>endsWith\<close>.\<close>

definition startsWith :: "string \<Rightarrow> string \<Rightarrow> bool" where
  "startsWith s p = (take (length p) s = p)"

definition endsWith :: "string \<Rightarrow> string \<Rightarrow> bool" where
  "endsWith s p = (length p \<le> length s \<and> drop (length s - length p) s = p)"

text \<open>\<^verbatim>\<open>s.split(c)\<close> for a one-character separator: the pieces between the separators,
  empty pieces included (\<^verbatim>\<open>''.split('/')\<close> is \<^verbatim>\<open>['']\<close>).\<close>

fun split_on :: "char \<Rightarrow> string \<Rightarrow> string list" where
  "split_on c [] = ['''']"
| "split_on c (x # xs) =
     (if x = c then [] # split_on c xs
      else (case split_on c xs of
              [] \<Rightarrow> [x] # []
            | w # ws \<Rightarrow> (x # w) # ws))"

text \<open>\<^verbatim>\<open>Array.prototype.indexOf\<close>: the first index of the element, or \<open>-1\<close>.\<close>

fun indexOf :: "'a list \<Rightarrow> 'a \<Rightarrow> int" where
  "indexOf [] x = -1"
| "indexOf (y # ys) x =
     (if y = x then 0
      else (let i = indexOf ys x in if i = -1 then -1 else i + 1))"

text \<open>\<^verbatim>\<open>URLSearchParams.has\<close>.\<close>

definition has_param :: "(string \<times> string) list \<Rightarrow> string \<Rightarrow> bool" where
  "has_param ps k = (k \<in> set (map fst ps))"

section \<open>The route predicates of the service worker\<close>

text \<open>
  \<^verbatim>\<open>const apiResourceParts = (pathname) => {
    const parts = pathname.split('/').filter(Boolean)
    const v1Index = parts.indexOf('v1')
    if (v1Index === -1) return null
    return parts.slice(v1Index + 1) }\<close>
\<close>

definition apiResourceParts :: "string \<Rightarrow> string list option" where
  "apiResourceParts p =
     (let parts = filter (\<lambda>w. w \<noteq> []) (split_on (CHR ''/'') p);
          v1Index = indexOf parts ''v1''
      in if v1Index = -1 then None else Some (drop (nat (v1Index + 1)) parts))"

definition isUserDataPath :: "string \<Rightarrow> bool" where
  "isUserDataPath p =
     (startsWith p ''/api/v1/auth/'' \<or>
      startsWith p ''/api/v1/users/'' \<or>
      startsWith p ''/api/v1/notifications/'')"

text \<open>The match callbacks, in the order in which the file registers them.\<close>

definition navigationMatch :: "request \<Rightarrow> bool" where
  "navigationMatch r = (mode r = ''navigate'')"

definition contributionsMatch :: "request \<Rightarrow> bool" where
  "contributionsMatch r =
     (rmethod r = ''POST'' \<and> startsWith (pathname r) ''/api/v1/contributions/'')"

definition userDataMatch :: "request \<Rightarrow> bool" where
  "userDataMatch r = (rmethod r = ''GET'' \<and> isUserDataPath (pathname r))"

definition apiGetMatch :: "request \<Rightarrow> bool" where
  "apiGetMatch r =
     (rmethod r = ''GET'' \<and> startsWith (pathname r) ''/api/v1/'' \<and>
      \<not> isUserDataPath (pathname r))"

definition imagesMatch :: "request \<Rightarrow> bool" where
  "imagesMatch r = (destination r = ''image'' \<or> startsWith (pathname r) ''/media/'')"

definition mapTilesMatch :: "request \<Rightarrow> bool" where
  "mapTilesMatch r =
     (destination r = ''image'' \<and>
      (hostname r = ''tile.openstreetmap.org'' \<or>
       endsWith (hostname r) ''.tile.openstreetmap.org''))"

section \<open>Cache tiers\<close>

datatype strategy = NetworkFirst | StaleWhileRevalidate | CacheFirst

text \<open>
  One record per strategy object built in the file: its \<^verbatim>\<open>cacheName\<close>, the
  \<^verbatim>\<open>statuses\<close> of its \<^verbatim>\<open>CacheableResponsePlugin\<close> and the \<^verbatim>\<open>maxAgeSeconds\<close> and
  \<^verbatim>\<open>maxEntries\<close> of its \<^verbatim>\<open>ExpirationPlugin\<close>.
\<close>

record tier =
  cacheName :: string
  tstrategy :: strategy
  networkTimeoutSeconds :: "nat option"
  statuses :: "nat list"
  maxAgeSeconds :: nat
  maxEntries :: nat

definition apiListTier :: tier where
  "apiListTier = \<lparr>cacheName = ''api-list-v1'', tstrategy = NetworkFirst,
     networkTimeoutSeconds = Some 5, statuses = [0, 200],
     maxAgeSeconds = 60 * 60, maxEntries = 200\<rparr>"

definition apiDetailTier :: tier where
  "apiDetailTier = \<lparr>cacheName = ''api-detail-v1'', tstrategy = StaleWhileRevalidate,
     networkTimeoutSeconds = None, statuses = [0, 200],
     maxAgeSeconds = 60 * 60 * 24, maxEntries = 500\<rparr>"

definition imagesTier :: tier where
  "imagesTier = \<lparr>cacheName = ''images-v1'', tstrategy = CacheFirst,
     networkTimeoutSeconds = None, statuses = [0, 200],
     maxAgeSeconds = 60 * 60 * 24 * 7, maxEntries = 500\<rparr>"

definition mapTilesTier :: tier where
  "mapTilesTier = \<lparr>cacheName = ''map-tiles-osm'', tstrategy = CacheFirst,
     networkTimeoutSeconds = None, statuses = [0, 200],
     maxAgeSeconds = 60 * 60 * 24 * 30, maxEntries = 2000\<rparr>"

definition allTiers :: "tier list" where
  "allTiers = [apiListTier, apiDetailTier, imagesTier, mapTilesTier]"

section \<open>The route table and the classifier\<close>

text \<open>
  What a matched route does with the request: serve a precached build asset, serve the
  precached \<^verbatim>\<open>/index.html\<close> (\<^verbatim>\<open>createHandlerBoundToURL\<close>), go to the network only with
  the background-sync plugin, go to the network only, or run the strategy of a tier.
  \<open>Unhandled\<close> is a request that no route takes: the worker does not answer the fetch
  event and the browser performs the request itself, with no caching.
\<close>

datatype handling =
    PrecachedAsset
  | AppShell
  | NetworkOnlyQueued
  | NetworkOnly
  | Cached tier
  | Unhandled

text \<open>
  The handler of the API route is a callback that chooses between two strategies:
  \<^verbatim>\<open>const parts = apiResourceParts(options.url.pathname) ?? []
  const isListLike = parts.length <= 1 || options.url.searchParams.has('page')\<close>
\<close>

definition isListLike :: "request \<Rightarrow> bool" where
  "isListLike r =
     (let parts = (case apiResourceParts (pathname r) of None \<Rightarrow> [] | Some ps \<Rightarrow> ps)
      in length parts \<le> 1 \<or> has_param (searchParams r) ''page'')"

definition apiGetHandler :: "request \<Rightarrow> handling" where
  "apiGetHandler r = (if isListLike r then Cached apiListTier else Cached apiDetailTier)"

text \<open>
  A registered route: the HTTP method it is registered for, its match callback and its
  handler. \<^verbatim>\<open>registerRoute(match, handler)\<close> of workbox-routing takes the method as an
  optional third argument that defaults to \<^verbatim>\<open>'GET'\<close>; the file never passes it, so every
  route is registered for \<^verbatim>\<open>GET\<close>. \<^verbatim>\<open>precacheAndRoute\<close> registers, first of all, a route
  that matches the URLs of the build manifest \<^verbatim>\<open>self.__WB_MANIFEST\<close>; the manifest is
  injected at build time, so the match of that route is a parameter here.
\<close>

datatype route = Route (routeMethod: string) (routeMatch: "request \<Rightarrow> bool")
  (routeHandler: "request \<Rightarrow> handling")

definition routes :: "(request \<Rightarrow> bool) \<Rightarrow> route list" where
  "routes inManifest =
     [Route ''GET'' inManifest (\<lambda>r. PrecachedAsset),
      Route ''GET'' navigationMatch (\<lambda>r. AppShell),
      Route ''GET'' contributionsMatch (\<lambda>r. NetworkOnlyQueued),
      Route ''GET'' userDataMatch (\<lambda>r. NetworkOnly),
      Route ''GET'' apiGetMatch apiGetHandler,
      Route ''GET'' imagesMatch (\<lambda>r. Cached imagesTier),
      Route ''GET'' mapTilesMatch (\<lambda>r. Cached mapTilesTier)]"

text \<open>
  The router is the default router of workbox-routing, which the file fills through
  \<^verbatim>\<open>registerRoute\<close> and does not define. As the library documents it, the router keeps
  its routes by HTTP method and answers a fetch event with the handler of the first
  route, in registration order, that is registered for the method of the request and
  whose match callback accepts it (the priority order of section 4.1). A request that no
  route takes is left to the browser.
\<close>

definition findMatchingRoute :: "route list \<Rightarrow> request \<Rightarrow> route option" where
  "findMatchingRoute rs r =
     find (\<lambda>rt. routeMethod rt = rmethod r \<and> routeMatch rt r) rs"

definition classify :: "(request \<Rightarrow> bool) \<Rightarrow> request \<Rightarrow> handling" where
  "classify inManifest r =
     (case findMatchingRoute (routes inManifest) r of
        None \<Rightarrow> Unhandled
      | Some rt \<Rightarrow> routeHandler rt r)"

text \<open>A build manifest that matches no request.\<close>

definition emptyManifest :: "request \<Rightarrow> bool" where
  "emptyManifest r = False"

section \<open>Responses, tier caches and strategies\<close>

text \<open>
  A response as far as the worker looks at it. A timestamp is \<^verbatim>\<open>Date.now()\<close>, in
  milliseconds.
\<close>

record response =
  status :: nat
  body :: string

record entry =
  ekey :: string
  eresp :: response
  storedAt :: int

text \<open>A named cache: its entries, the least recently inserted first.\<close>

type_synonym cache = "entry list"

text \<open>
  The plugins and strategies are objects of the Workbox library, which the file
  configures and does not define. Their steps are modelled from sections 3 and 4.2 of
  the specification and from the documented behaviour of the library.
\<close>

text \<open>Modelled from the spec: \<^verbatim>\<open>CacheableResponsePlugin({ statuses })\<close>, which the library
  defines, lets a response into the cache exactly when its status is one of
  \<^verbatim>\<open>statuses\<close>.\<close>

definition cacheable :: "tier \<Rightarrow> response \<Rightarrow> bool" where
  "cacheable t r = (status r \<in> set (statuses t))"

text \<open>Modelled from the spec: the cache lookup of a strategy, which the library defines.
  ``An entry is never served once \<open>now - stored_at > max_age\<close> for its tier; it is then
  treated as a miss'' (section 3).\<close>

definition cacheMatch :: "tier \<Rightarrow> int \<Rightarrow> cache \<Rightarrow> string \<Rightarrow> response option" where
  "cacheMatch t now c k =
     (case find (\<lambda>e. ekey e = k) c of
        None \<Rightarrow> None
      | Some e \<Rightarrow>
          if now - storedAt e > int (maxAgeSeconds t) * 1000 then None
          else Some (eresp e))"

text \<open>Modelled from the spec: the eviction of \<^verbatim>\<open>ExpirationPlugin\<close>, which the library
  defines. ``Once \<open>count(tier) > maxEntries\<close>, the least-recently-inserted entries are
  evicted until \<open>count(tier) \<le> maxEntries\<close> holds'' (section 8).\<close>

definition evict :: "tier \<Rightarrow> cache \<Rightarrow> cache" where
  "evict t c = drop (length c - maxEntries t) c"

text \<open>Modelled from the spec: the cache write of a strategy, which the library defines.
  A response that the cacheable-response plugin accepts replaces the entry of its key
  and becomes the most recently inserted one; eviction is ``enforced lazily after each
  write'' (section 4.2). Any other response leaves the cache as it is.\<close>

definition cachePut :: "tier \<Rightarrow> int \<Rightarrow> cache \<Rightarrow> string \<Rightarrow> response \<Rightarrow> cache" where
  "cachePut t now c k r =
     (if cacheable t r
      then evict t (filter (\<lambda>e. ekey e \<noteq> k) c @ [\<lparr>ekey = k, eresp = r, storedAt = now\<rparr>])
      else c)"

text \<open>
  Where an answer comes from. The network outcome of a request is \<open>Some\<close> response (of
  any status) or \<open>None\<close> when the fetch fails for lack of connectivity or, under
  network-first, does not answer within the timeout.
\<close>

datatype answer = FromNetwork response | FromCache response | FromPrecache | NoResponse

definition netAnswer :: "response option \<Rightarrow> answer" where
  "netAnswer net = (case net of None \<Rightarrow> NoResponse | Some r \<Rightarrow> FromNetwork r)"

text \<open>
  Modelled from the spec: the three strategies \<^verbatim>\<open>NetworkFirst\<close>,
  \<^verbatim>\<open>StaleWhileRevalidate\<close> and \<^verbatim>\<open>CacheFirst\<close>, which the library defines (section 4.2).
  \<^item> network-first: ``attempt network [...]. On success, store response in the tier's
    cache and return it. On timeout or network error, fall back to the most recent
    cached entry for that exact key if present; otherwise fail.''
  \<^item> stale-while-revalidate: ``return the cached entry immediately if present [...], and
    concurrently issue a network request whose successful response overwrites the cache
    entry for next time; if no cached entry exists, wait on the network.''
  \<^item> cache-first: ``serve from cache if present; only hit network on a genuine miss,
    then populate the cache.''
\<close>

definition runStrategy ::
  "tier \<Rightarrow> int \<Rightarrow> response option \<Rightarrow> string \<Rightarrow> cache \<Rightarrow> answer \<times> cache" where
  "runStrategy t now net k c =
     (case tstrategy t of
        NetworkFirst \<Rightarrow>
          (case net of
             Some r \<Rightarrow> (FromNetwork r, cachePut t now c k r)
           | None \<Rightarrow>
               (case cacheMatch t now c k of
                  Some r \<Rightarrow> (FromCache r, c)
                | None \<Rightarrow> (NoResponse, c)))
      | StaleWhileRevalidate \<Rightarrow>
          (let c' = (case net of Some r \<Rightarrow> cachePut t now c k r | None \<Rightarrow> c)
           in case cacheMatch t now c k of
                Some r \<Rightarrow> (FromCache r, c')
              | None \<Rightarrow> (netAnswer net, c'))
      | CacheFirst \<Rightarrow>
          (case cacheMatch t now c k of
             Some r \<Rightarrow> (FromCache r, c)
           | None \<Rightarrow>
               (case net of
                  Some r \<Rightarrow> (FromNetwork r, cachePut t now c k r)
                | None \<Rightarrow> (NoResponse, c))))"

section \<open>The durable write queue\<close>

text \<open>
  \<^verbatim>\<open>new BackgroundSyncPlugin('contributionsQueue', { maxRetentionTime: 24 * 60 })\<close>,
  the retention time being in minutes.
\<close>

definition maxRetentionTime :: int where
  "maxRetentionTime = 24 * 60"

record queued =
  qrequest :: request
  enqueuedAt :: int

text \<open>
  Modelled from the spec: \<^verbatim>\<open>new NetworkOnly({ plugins: [contributionSyncQueue] })\<close>
  sends the request to the network; the background-sync plugin of Workbox stores the
  request in the queue when the fetch fails, and only then (section 4.3). A response of
  any status is a fetch that did not fail.
\<close>

definition networkOnlyQueued ::
  "int \<Rightarrow> response option \<Rightarrow> request \<Rightarrow> queued list \<Rightarrow> answer \<times> queued list" where
  "networkOnlyQueued now net r q =
     (case net of
        Some resp \<Rightarrow> (FromNetwork resp, q)
      | None \<Rightarrow> (NoResponse, q @ [\<lparr>qrequest = r, enqueuedAt = now\<rparr>]))"

section \<open>The worker answering a fetch event\<close>

record swState =
  caches :: "string \<Rightarrow> cache"
  queue :: "queued list"

definition initialState :: swState where
  "initialState = \<lparr>caches = (\<lambda>n. []), queue = []\<rparr>"

definition handleFetch ::
  "(request \<Rightarrow> bool) \<Rightarrow> int \<Rightarrow> response option \<Rightarrow> request \<Rightarrow> swState \<Rightarrow> answer \<times> swState" where
  "handleFetch inManifest now net r st =
     (case classify inManifest r of
        PrecachedAsset \<Rightarrow> (FromPrecache, st)
      | AppShell \<Rightarrow> (FromPrecache, st)
      | NetworkOnlyQueued \<Rightarrow>
          (let (a, q) = networkOnlyQueued now net r (queue st) in (a, st\<lparr>queue := q\<rparr>))
      | NetworkOnly \<Rightarrow> (netAnswer net, st)
      | Cached t \<Rightarrow>
          (let (a, c) = runStrategy t now net (href r) (caches st (cacheName t))
           in (a, st\<lparr>caches := (caches st)(cacheName t := c)\<rparr>))
      | Unhandled \<Rightarrow> (netAnswer net, st))"

text \<open>The worker answering a sequence of fetch events, each with its time and its
  network outcome.\<close>

fun handleAll ::
  "(request \<Rightarrow> bool) \<Rightarrow> (int \<times> response option \<times> request) list \<Rightarrow> swState \<Rightarrow> swState" where
  "handleAll inManifest [] st = st"
| "handleAll inManifest ((now, net, r) # evs) st =
     handleAll inManifest evs (snd (handleFetch inManifest now net r st))"

section \<open>List and detail requests in the words of the specification\<close>

text \<open>
  The specification sends a \<^verbatim>\<open>GET\<close> under the API root to the list tier when it
  enumerates a collection (``no trailing resource identifier present, or a pagination
  parameter present'') and to the detail tier when it addresses a single resource by
  identifier. The definitions below follow these words, not the test that the worker
  makes. The path below the API root \<^verbatim>\<open>/api/v1/\<close> is the resource name, followed or not
  by further segments.
\<close>

definition resourcePath :: "string \<Rightarrow> string list" where
  "resourcePath p =
     filter (\<lambda>w. w \<noteq> []) (split_on (CHR ''/'') (drop (length ''/api/v1/'') p))"

text \<open>
  The interface of the specification addresses one resource as
  \<^verbatim>\<open><api-root>/<resource>/<id>/\<close>. The types of the client declare an \<^verbatim>\<open>id\<close> as a
  number or a string, so a resource identifier is read here as a decimal number or a UUID
  (hexadecimal digits in groups of 8, 4, 4, 4 and 12, joined by hyphens). Words such as
  \<^verbatim>\<open>all\<close>, \<^verbatim>\<open>stats\<close> or \<^verbatim>\<open>geojson\<close>, which name a collection or an action, are
  not identifiers.
\<close>

definition isDigit :: "char \<Rightarrow> bool" where
  "isDigit c = (c \<in> set ''0123456789'')"

definition isHexDigit :: "char \<Rightarrow> bool" where
  "isHexDigit c = (c \<in> set ''0123456789abcdefABCDEF'')"

definition isUuid :: "string \<Rightarrow> bool" where
  "isUuid s =
     (length s = 36 \<and>
      list_all (\<lambda>(i, c). if i \<in> set [8, 13, 18, 23] then c = CHR ''-'' else isHexDigit c)
        (zip [0 ..< 36] s))"

definition isIdentifier :: "string \<Rightarrow> bool" where
  "isIdentifier s = ((s \<noteq> [] \<and> list_all isDigit s) \<or> isUuid s)"

text \<open>A trailing resource identifier: the path names a resource and ends in an
  identifier.\<close>

definition hasTrailingIdentifier :: "request \<Rightarrow> bool" where
  "hasTrailingIdentifier r =
     (1 < length (resourcePath (pathname r)) \<and> isIdentifier (last (resourcePath (pathname r))))"

text \<open>The pagination parameters of a list, by the interface of the specification, are
  \<^verbatim>\<open>page\<close> and \<^verbatim>\<open>page_size\<close>.\<close>

definition hasPaginationParameter :: "request \<Rightarrow> bool" where
  "hasPaginationParameter r =
     (has_param (searchParams r) ''page'' \<or> has_param (searchParams r) ''page_size'')"

definition enumeratesCollection :: "request \<Rightarrow> bool" where
  "enumeratesCollection r = (\<not> hasTrailingIdentifier r \<or> hasPaginationParameter r)"

definition addressesSingleResource :: "request \<Rightarrow> bool" where
  "addressesSingleResource r = (hasTrailingIdentifier r \<and> \<not> hasPaginationParameter r)"

section \<open>Concrete requests\<close>

text \<open>A tile image requested by the map from the OpenStreetMap tile host.\<close>

definition osmTileRequest :: request where
  "osmTileRequest = \<lparr>rmethod = ''GET'', mode = ''no-cors'', destination = ''image'',
     hostname = ''tile.openstreetmap.org'', pathname = ''/10/511/340.png'',
     searchParams = [], href = ''https://tile.openstreetmap.org/10/511/340.png''\<rparr>"

text \<open>The browser navigating to the heritage-item list of the API.\<close>

definition listNavigation :: request where
  "listNavigation = \<lparr>rmethod = ''GET'', mode = ''navigate'', destination = ''document'',
     hostname = ''localhost'', pathname = ''/api/v1/heritage-items/'',
     searchParams = [], href = ''http://localhost:8080/api/v1/heritage-items/''\<rparr>"

text \<open>The Explore view fetching a page of the heritage-item list, and one item.\<close>

definition listFetch :: request where
  "listFetch = \<lparr>rmethod = ''GET'', mode = ''cors'', destination = '''',
     hostname = ''localhost'', pathname = ''/api/v1/heritage-items/'',
     searchParams = [(''page'', ''1''), (''page_size'', ''100'')],
     href = ''http://localhost:8000/api/v1/heritage-items/?page=1&page_size=100''\<rparr>"

definition detailFetch :: request where
  "detailFetch = \<lparr>rmethod = ''GET'', mode = ''cors'', destination = '''',
     hostname = ''localhost'', pathname = ''/api/v1/heritage-items/5/'',
     searchParams = [], href = ''http://localhost:8000/api/v1/heritage-items/5/''\<rparr>"

text \<open>The forms of the application fetching the list of all categories
  (\<^verbatim>\<open>api.get('/categories/all/')\<close>), and a request for one heritage item that carries a
  page size and no page number.\<close>

definition allCategoriesFetch :: request where
  "allCategoriesFetch = \<lparr>rmethod = ''GET'', mode = ''cors'', destination = '''',
     hostname = ''localhost'', pathname = ''/api/v1/categories/all/'',
     searchParams = [], href = ''http://localhost:8000/api/v1/categories/all/''\<rparr>"

definition pageSizeOnlyFetch :: request where
  "pageSizeOnlyFetch = \<lparr>rmethod = ''GET'', mode = ''cors'', destination = '''',
     hostname = ''localhost'', pathname = ''/api/v1/heritage-items/5/'',
     searchParams = [(''page_size'', ''10'')],
     href = ''http://localhost:8000/api/v1/heritage-items/5/?page_size=10''\<rparr>"

text \<open>The current-user profile: fetched by the application, and opened in the browser.\<close>

definition profileFetch :: request where
  "profileFetch = \<lparr>rmethod = ''GET'', mode = ''cors'', destination = '''',
     hostname = ''localhost'', pathname = ''/api/v1/users/me/'',
     searchParams = [], href = ''http://localhost:8000/api/v1/users/me/''\<rparr>"

definition profileNavigation :: request where
  "profileNavigation = \<lparr>rmethod = ''GET'', mode = ''navigate'', destination = ''document'',
     hostname = ''localhost'', pathname = ''/api/v1/users/me/'',
     searchParams = [], href = ''http://localhost:8080/api/v1/users/me/''\<rparr>"

text \<open>A contribution being created, and one being replaced.\<close>

definition postContribution :: request where
  "postContribution = \<lparr>rmethod = ''POST'', mode = ''cors'', destination = '''',
     hostname = ''localhost'', pathname = ''/api/v1/contributions/'',
     searchParams = [], href = ''http://localhost:8000/api/v1/contributions/''\<rparr>"

definition putContribution :: request where
  "putContribution = \<lparr>rmethod = ''PUT'', mode = ''cors'', destination = '''',
     hostname = ''localhost'', pathname = ''/api/v1/contributions/5/'',
     searchParams = [], href = ''http://localhost:8000/api/v1/contributions/5/''\<rparr>"

definition okResponse :: response where
  "okResponse = \<lparr>status = 200, body = ''ok''\<rparr>"

definition errorResponse :: response where
  "errorResponse = \<lparr>status = 500, body = ''error''\<rparr>"

section \<open>Well-formed caches\<close>

text \<open>A cache all of whose stored responses have status 0 (opaque) or 200.\<close>

definition onlyOkEntries :: "cache \<Rightarrow> bool" where
  "onlyOkEntries c = (\<forall>e \<in> set c. status (eresp e) = 0 \<or> status (eresp e) = 200)"

section \<open>Replaying the queue\<close>

text \<open>Modelled from the spec: an entry is dropped once \<open>now - enqueued_at\<close> exceeds the
  retention window (section 3). The window is the \<^verbatim>\<open>maxRetentionTime\<close> of the source,
  which is in minutes; timestamps are in milliseconds.\<close>

definition retentionMs :: int where
  "retentionMs = maxRetentionTime * 60 * 1000"

definition expired :: "int \<Rightarrow> queued \<Rightarrow> bool" where
  "expired now e = (now - enqueuedAt e > retentionMs)"

text \<open>
  Modelled from the spec: the replay pass belongs to the background-sync plugin of
  Workbox, which the file instantiates and does not define. It follows section 4.3:
  ``dequeue entries oldest-first, reissue each as a plain request; on success, remove
  from queue; on failure, leave it queued and stop this replay pass (do not skip ahead
  and reorder). Entries older than the retention window (24 hours) are dropped
  unreplayed.'' The result is the list of the entries that were sent, in the order of
  sending, and the queue that remains.
\<close>

fun replayRequests ::
  "int \<Rightarrow> (request \<Rightarrow> response option) \<Rightarrow> queued list \<Rightarrow> queued list \<times> queued list" where
  "replayRequests now net [] = ([], [])"
| "replayRequests now net (e # q) =
     (if expired now e then replayRequests now net q
      else (case net (qrequest e) of
              None \<Rightarrow> ([e], e # q)
            | Some resp \<Rightarrow>
                (let (sent, rest) = replayRequests now net q in (e # sent, rest))))"

text \<open>A queue whose entries were enqueued in the order of their timestamps.\<close>

definition enqueuedInOrder :: "queued list \<Rightarrow> bool" where
  "enqueuedInOrder q = sorted (map enqueuedAt q)"

section \<open>Submitting a contribution\<close>

text \<open>
  The contribution form (\<^verbatim>\<open>ContributionForm.vue\<close>) posts to \<^verbatim>\<open>/contributions/\<close> below
  the base URL \<^verbatim>\<open>/api/v1\<close> of the API client. The client rejects when the fetch fails
  and when the status is outside 200..299; on a 401 its response interceptor reissues
  the request once. The network outcome is given for the first attempt (\<open>False\<close>) and for
  the reissued one (\<open>True\<close>).
\<close>

definition resolved :: "answer \<Rightarrow> bool" where
  "resolved a =
     (case a of
        FromNetwork r \<Rightarrow> 200 \<le> status r \<and> status r < 300
      | FromCache r \<Rightarrow> 200 \<le> status r \<and> status r < 300
      | FromPrecache \<Rightarrow> True
      | NoResponse \<Rightarrow> False)"

definition unauthorized :: "answer \<Rightarrow> bool" where
  "unauthorized a =
     (case a of
        FromNetwork r \<Rightarrow> status r = 401
      | FromCache r \<Rightarrow> status r = 401
      | FromPrecache \<Rightarrow> False
      | NoResponse \<Rightarrow> False)"

definition apiRequest ::
  "(request \<Rightarrow> bool) \<Rightarrow> int \<Rightarrow> (bool \<Rightarrow> response option) \<Rightarrow> request \<Rightarrow> swState
     \<Rightarrow> answer \<times> swState" where
  "apiRequest inManifest now net r sw =
     (let (a, sw1) = handleFetch inManifest now (net False) r sw
      in if unauthorized a then handleFetch inManifest now (net True) r sw1 else (a, sw1))"

record formState =
  submitting :: bool
  queuedOffline :: bool
  submittedSuccess :: bool
  alerts :: "string list"

definition initialForm :: formState where
  "initialForm = \<lparr>submitting = False, queuedOffline = False, submittedSuccess = False,
     alerts = []\<rparr>"

text \<open>
  \<^verbatim>\<open>const submitContribution = async () => {
    submitting.value = true;
    try {
      await api.post('/contributions/', contribution);
      queuedOffline.value = false;
      submittedSuccess.value = true;
    } catch (error) {
      // If offline, the service worker queues this POST and will retry when online.
      const offline = typeof navigator !== 'undefined' && navigator && navigator.onLine === false;
      if (offline) { queuedOffline.value = true; submittedSuccess.value = true; return; }
      alert(t('contribution.actions.error'));
    } finally { submitting.value = false; } }\<close>
  \<open>onLine\<close> is \<^verbatim>\<open>navigator.onLine\<close>.
\<close>

definition submitContribution ::
  "(request \<Rightarrow> bool) \<Rightarrow> int \<Rightarrow> bool \<Rightarrow> (bool \<Rightarrow> response option) \<Rightarrow> swState \<times> formState
     \<Rightarrow> swState \<times> formState" where
  "submitContribution inManifest now onLine net s =
     (let sw = fst s;
          ui = (snd s)\<lparr>submitting := True\<rparr>;
          (a, sw') = apiRequest inManifest now net postContribution sw
      in if resolved a
         then (sw', ui\<lparr>queuedOffline := False, submittedSuccess := True, submitting := False\<rparr>)
         else if \<not> onLine
         then (sw', ui\<lparr>queuedOffline := True, submittedSuccess := True, submitting := False\<rparr>)
         else (sw', ui\<lparr>alerts := alerts ui @ [''contribution.actions.error''],
                        submitting := False\<rparr>))"

text \<open>No connectivity: every attempt fails.\<close>

definition noConnectivity :: "bool \<Rightarrow> response option" where
  "noConnectivity retry = None"

text \<open>A server that rejects the contribution.\<close>

definition serverRejects :: "bool \<Rightarrow> response option" where
  "serverRejects retry = Some \<lparr>status = 400, body = ''invalid''\<rparr>"

text \<open>Two queued contributions, the first enqueued before the second.\<close>

definition queuedA :: queued where
  "queuedA = \<lparr>qrequest = postContribution, enqueuedAt = 1000\<rparr>"

definition queuedB :: queued where
  "queuedB = \<lparr>qrequest = postContribution, enqueuedAt = 2000\<rparr>"

text \<open>A network on which every replayed request succeeds, and one on which every
  replayed request fails.\<close>

definition alwaysOk :: "request \<Rightarrow> response option" where
  "alwaysOk r = Some okResponse"

definition alwaysFails :: "request \<Rightarrow> response option" where
  "alwaysFails r = None"

text \<open>The entries of a replay pass that were sent and answered: all the sent ones when
  the queue was emptied, all but the last when the pass stopped at a failure.\<close>

definition replayed :: "queued list \<times> queued list \<Rightarrow> queued list" where
  "replayed res = (if snd res = [] then fst res else butlast (fst res))"

section \<open>The Explore view: the current query\<close>

text \<open>
  The values that the view (\<^verbatim>\<open>ExploreView.vue\<close>) puts into a query object are strings
  and \<^verbatim>\<open>true\<close>. An object is the list of its own properties in insertion order, which
  is the order \<^verbatim>\<open>JSON.stringify\<close> follows; \<^verbatim>\<open>obj[k] = v\<close> replaces the value of an
  existing property in place and appends a new one.
\<close>

datatype jval = JStr string | JBool bool

type_synonym params = "(string \<times> jval) list"

fun assign :: "params \<Rightarrow> string \<Rightarrow> jval \<Rightarrow> params" where
  "assign [] k v = [(k, v)]"
| "assign ((k', v') # ps) k v =
     (if k' = k then (k, v) # ps else (k', v') # assign ps k v)"

text \<open>\<^verbatim>\<open>String.prototype.trim\<close>, on the white space that fits in a byte.\<close>

definition isWhitespace :: "char \<Rightarrow> bool" where
  "isWhitespace c =
     (c \<in> set [CHR 0x09, CHR 0x0A, CHR 0x0B, CHR 0x0C, CHR 0x0D, CHR 0x20, CHR 0xA0])"

definition trim :: "string \<Rightarrow> string" where
  "trim s = rev (dropWhile isWhitespace (rev (dropWhile isWhitespace s)))"

text \<open>\<^verbatim>\<open>String(n)\<close> for a natural number.\<close>

fun showNat :: "nat \<Rightarrow> string" where
  "showNat n =
     (if n < 10 then [char_of (n + 48)]
      else showNat (n div 10) @ [char_of (n mod 10 + 48)])"

record heritageType =
  typeId :: nat
  slug :: string

datatype stored = NotJson | NoQuery | Manifest params int nat

text \<open>
  The reactive state of the view that the offline bundle reads or writes.
  \<open>offlineArea\<close> is the item of \<^verbatim>\<open>localStorage\<close> under the key \<^verbatim>\<open>hp_offline_area\<close>:
  absent, a string that \<^verbatim>\<open>JSON.parse\<close> rejects (or the empty string), a JSON value
  without a \<^verbatim>\<open>query\<close>, or the manifest \<^verbatim>\<open>{query, downloadedAt, itemCount}\<close> that
  \<^verbatim>\<open>downloadForOffline\<close> wrote, read back by \<^verbatim>\<open>JSON.parse\<close> as it was written.
\<close>

record exploreState =
  search :: string
  selectedTypeSlug :: string
  selectedCategoryId :: string
  selectedParishId :: string
  selectedMedia :: string
  selectedOrdering :: string
  types :: "heritageType list"
  offlineDownloading :: bool
  offlineDownloadError :: "string option"
  offlineArea :: "stored option"

definition selectedTypeId :: "exploreState \<Rightarrow> string" where
  "selectedTypeId st =
     (if selectedTypeSlug st = ''all'' then ''''
      else (case find (\<lambda>t. slug t = selectedTypeSlug st) (types st) of
              Some match \<Rightarrow> showNat (typeId match)
            | None \<Rightarrow> ''''))"

definition currentQuerySnapshot :: "exploreState \<Rightarrow> params" where
  "currentQuerySnapshot st =
     (let p0 = [];
          p1 = (if trim (search st) \<noteq> ''''
                then assign p0 ''search'' (JStr (trim (search st))) else p0);
          p2 = (if selectedTypeId st \<noteq> ''''
                then assign p1 ''heritage_type'' (JStr (selectedTypeId st)) else p1);
          p3 = (if selectedCategoryId st \<noteq> ''''
                then assign p2 ''heritage_category'' (JStr (selectedCategoryId st)) else p2);
          p4 = (if selectedParishId st \<noteq> ''''
                then assign p3 ''parish'' (JStr (selectedParishId st)) else p3);
          p5 = (if selectedOrdering st \<noteq> ''''
                then assign p4 ''ordering'' (JStr (selectedOrdering st)) else p4);
          p6 = (if selectedMedia st = ''images''
                then assign p5 ''has_images'' (JBool True) else p5);
          p7 = (if selectedMedia st = ''audio''
                then assign p6 ''has_audio'' (JBool True) else p6);
          p8 = (if selectedMedia st = ''video''
                then assign p7 ''has_video'' (JBool True) else p7);
          p9 = (if selectedMedia st = ''documents''
                then assign p8 ''has_documents'' (JBool True) else p8);
          p10 = (if selectedMedia st = ''text''
                 then assign p9 ''text_only'' (JBool True) else p9)
      in p10)"

section \<open>JSON text of a query\<close>

text \<open>
  \<^verbatim>\<open>JSON.stringify\<close> on an object of strings and booleans. A string is quoted; the
  quotation mark and the backslash are escaped with a backslash, the control characters
  below \<^verbatim>\<open>0x20\<close> with their short escapes or as \<^verbatim>\<open>\u00XX\<close> in lower-case hexadecimal.
\<close>

definition hexDigit :: "nat \<Rightarrow> char" where
  "hexDigit n = (if n < 10 then char_of (n + 48) else char_of (n + 87))"

definition escapeChar :: "char \<Rightarrow> string" where
  "escapeChar c =
     (if c = CHR 0x22 then [CHR 0x5C, CHR 0x22]
      else if c = CHR 0x5C then [CHR 0x5C, CHR 0x5C]
      else if c = CHR 0x08 then [CHR 0x5C, CHR ''b'']
      else if c = CHR 0x0C then [CHR 0x5C, CHR ''f'']
      else if c = CHR 0x0A then [CHR 0x5C, CHR ''n'']
      else if c = CHR 0x0D then [CHR 0x5C, CHR ''r'']
      else if c = CHR 0x09 then [CHR 0x5C, CHR ''t'']
      else if (of_char c :: nat) < 32
      then [CHR 0x5C, CHR ''u'', CHR ''0'', CHR ''0'',
            hexDigit (of_char c div 16), hexDigit (of_char c mod 16)]
      else [c])"

definition quote :: "string \<Rightarrow> string" where
  "quote s = CHR 0x22 # concat (map escapeChar s) @ [CHR 0x22]"

fun stringifyValue :: "jval \<Rightarrow> string" where
  "stringifyValue (JStr s) = quote s"
| "stringifyValue (JBool b) = (if b then ''true'' else ''false'')"

definition member_text :: "string \<times> jval \<Rightarrow> string" where
  "member_text kv = quote (fst kv) @ '':'' @ stringifyValue (snd kv)"

fun members :: "params \<Rightarrow> string" where
  "members [] = ''''"
| "members [kv] = member_text kv"
| "members (kv # kvs) = member_text kv @ '','' @ members kvs"

definition stringify :: "params \<Rightarrow> string" where
  "stringify ps = ''{'' @ members ps @ ''}''"

section \<open>The Explore view: downloading a bundle for offline use\<close>

text \<open>
  The data of a list response. \<^verbatim>\<open>downloadForOffline\<close> reads
  \<^verbatim>\<open>Array.isArray(data?.results) ? data.results : Array.isArray(data) ? data : []\<close> and
  \<^verbatim>\<open>data?.next\<close>: the data is an object with \<^verbatim>\<open>results\<close> (an array or not) and \<^verbatim>\<open>next\<close>
  (a URL or not), a bare array, or something else. Of a list item only the \<^verbatim>\<open>id\<close> is
  read, so an item is its id.
\<close>

datatype listData =
    Envelope "string list option" "string option"
  | BareArray "string list"
  | OtherData

fun resultsOf :: "listData \<Rightarrow> string list" where
  "resultsOf (Envelope (Some rs) nxt) = rs"
| "resultsOf (Envelope None nxt) = []"
| "resultsOf (BareArray rs) = rs"
| "resultsOf OtherData = []"

fun hasNext :: "listData \<Rightarrow> bool" where
  "hasNext (Envelope rs (Some url)) = (url \<noteq> '''')"
| "hasNext (Envelope rs None) = False"
| "hasNext (BareArray rs) = False"
| "hasNext OtherData = False"

text \<open>The media references of a detail representation; an absent array is empty, an
  absent or null file is \<open>None\<close>.\<close>

record detail =
  primary_image :: "string option"
  images :: "string option list"
  audio :: "string option list"
  video :: "string option list"
  documents :: "string option list"

definition mediaUrls :: "detail \<Rightarrow> string list" where
  "mediaUrls d =
     concat (map (\<lambda>u. case u of None \<Rightarrow> [] | Some s \<Rightarrow> if length s > 0 then [s] else [])
       (primary_image d # images d @ audio d @ video d @ documents d))"

text \<open>
  What surrounds the view: \<^verbatim>\<open>navigator.onLine\<close>; the list endpoint, asked with the
  filter parameters, \<^verbatim>\<open>page\<close> and \<^verbatim>\<open>page_size\<close>; the detail endpoint, asked with an
  id; the plain \<^verbatim>\<open>fetch\<close> of a media URL; and \<^verbatim>\<open>Date.now()\<close>. A request of the API
  client that throws is \<open>None\<close>; a media fetch succeeds or fails.
\<close>

record env =
  navigatorOnLine :: bool
  listEndpoint :: "params \<Rightarrow> nat \<Rightarrow> nat \<Rightarrow> listData option"
  detailEndpoint :: "string \<Rightarrow> detail option"
  mediaFetch :: "string \<Rightarrow> bool"
  clock :: int

text \<open>The requests that a download issues, in order; a media fetch with its outcome.\<close>

datatype call = ListCall params nat nat | DetailCall string | MediaCall string bool

datatype downloadError = ListFetchFailed nat | DetailFetchFailed string

definition pageSize :: nat where
  "pageSize = 100"

definition maxPages :: nat where
  "maxPages = 5"

text \<open>
  The loop over the items of a page:
  \<^verbatim>\<open>for (const listItem of results) {
    totalItems += 1
    const detailRes = await api.get(`/heritage-items/${listItem.id}/`)
    ...
    await Promise.all(urls.filter(...).map((u) => fetch(u).catch(() => null))) }\<close>
  The result is the calls issued and either the error thrown or \<^verbatim>\<open>totalItems\<close>.
\<close>

fun itemLoop :: "env \<Rightarrow> string list \<Rightarrow> nat \<Rightarrow> call list \<times> (downloadError + nat)" where
  "itemLoop e [] totalItems = ([], Inr totalItems)"
| "itemLoop e (listItem # results) totalItems =
     (let totalItems' = totalItems + 1
      in case detailEndpoint e listItem of
           None \<Rightarrow> ([DetailCall listItem], Inl (DetailFetchFailed listItem))
         | Some d \<Rightarrow>
             (let warm = map (\<lambda>u. MediaCall u (mediaFetch e u)) (mediaUrls d);
                  (cs, res) = itemLoop e results totalItems'
              in (DetailCall listItem # warm @ cs, res)))"

text \<open>
  The loop over the pages:
  \<^verbatim>\<open>while (page <= maxPages) {
    const response = await api.get('/heritage-items/', { params: { ...baseParams, page, page_size: pageSize } })
    ...
    if (!data?.next || results.length === 0) break
    page += 1 }\<close>
\<close>

function pageLoop ::
  "env \<Rightarrow> params \<Rightarrow> nat \<Rightarrow> nat \<Rightarrow> call list \<times> (downloadError + nat)" where
  "pageLoop e baseParams page totalItems =
     (if page \<le> maxPages
      then (case listEndpoint e baseParams page pageSize of
              None \<Rightarrow> ([ListCall baseParams page pageSize], Inl (ListFetchFailed page))
            | Some data \<Rightarrow>
                (case itemLoop e (resultsOf data) totalItems of
                   (cs, Inl err) \<Rightarrow> (ListCall baseParams page pageSize # cs, Inl err)
                 | (cs, Inr totalItems') \<Rightarrow>
                     if \<not> hasNext data \<or> length (resultsOf data) = 0
                     then (ListCall baseParams page pageSize # cs, Inr totalItems')
                     else (let (cs', res) = pageLoop e baseParams (page + 1) totalItems'
                           in (ListCall baseParams page pageSize # cs @ cs', res))))
      else ([], Inr totalItems))"
  by pat_completeness auto
termination
  by (relation "measure (\<lambda>(e, baseParams, page, totalItems). maxPages + 1 - page)") auto

text \<open>
  \<^verbatim>\<open>downloadForOffline\<close>: refused when offline; otherwise the pages are walked and, if
  nothing threw, the manifest is written over the item of \<^verbatim>\<open>localStorage\<close>; if
  something threw, the \<^verbatim>\<open>catch\<close> sets the error message. The messages are the keys
  handed to the translation function.
\<close>

definition downloadForOffline :: "env \<Rightarrow> exploreState \<Rightarrow> call list \<times> exploreState" where
  "downloadForOffline e st0 =
     (let st1 = st0\<lparr>offlineDownloadError := None\<rparr>
      in if \<not> navigatorOnLine e
         then ([], st1\<lparr>offlineDownloadError := Some ''explore.offline.mustBeOnline''\<rparr>)
         else (let st2 = st1\<lparr>offlineDownloading := True\<rparr>;
                   baseParams = currentQuerySnapshot st2;
                   (cs, res) = pageLoop e baseParams 1 0
               in case res of
                    Inr totalItems \<Rightarrow>
                      (cs, st2\<lparr>offlineArea :=
                                  Some (Manifest (currentQuerySnapshot st2) (clock e) totalItems),
                                offlineDownloading := False\<rparr>)
                  | Inl err \<Rightarrow>
                      (cs, st2\<lparr>offlineDownloadError := Some ''explore.offline.downloadError'',
                                offlineDownloading := False\<rparr>)))"

text \<open>The calls of a download that go to the list endpoint and to the detail endpoint.\<close>

fun isListCall :: "call \<Rightarrow> bool" where
  "isListCall (ListCall ps page n) = True"
| "isListCall c = False"

fun isDetailCall :: "call \<Rightarrow> bool" where
  "isDetailCall (DetailCall i) = True"
| "isDetailCall c = False"

text \<open>
  Whether a call of a download is a list-page or item-detail fetch that threw. A media
  fetch that fails is swallowed by \<^verbatim>\<open>.catch(() => null)\<close> and never throws.
\<close>

fun failedCall :: "env \<Rightarrow> call \<Rightarrow> bool" where
  "failedCall e (ListCall ps page n) = (listEndpoint e ps page n = None)"
| "failedCall e (DetailCall i) = (detailEndpoint e i = None)"
| "failedCall e (MediaCall u ok) = False"

section \<open>The Explore view: is there an offline copy of the current query\<close>

text \<open>
  \<^verbatim>\<open>const hasOfflineBundleForCurrentQuery = computed(() => {
    try {
      const raw = localStorage.getItem(OFFLINE_AREA_STORAGE_KEY)
      if (!raw) return false
      const parsed = JSON.parse(raw)
      return JSON.stringify(parsed?.query ?? {}) === JSON.stringify(currentQuerySnapshot.value)
    } catch { return false } })\<close>
  The getter of the computed value, run on the state of the view. Its result is the value
  and whether the run read \<^verbatim>\<open>currentQuerySnapshot.value\<close>: a run that finds no item, or
  an item that \<^verbatim>\<open>JSON.parse\<close> rejects, returns before it reads the snapshot.
\<close>

definition hasOfflineBundleGetter :: "exploreState \<Rightarrow> bool \<times> bool" where
  "hasOfflineBundleGetter st =
     (case offlineArea st of
        None \<Rightarrow> (False, False)
      | Some NotJson \<Rightarrow> (False, False)
      | Some NoQuery \<Rightarrow> (stringify [] = stringify (currentQuerySnapshot st), True)
      | Some (Manifest q downloadedAt itemCount) \<Rightarrow>
          (stringify q = stringify (currentQuerySnapshot st), True))"

text \<open>
  A \<^verbatim>\<open>computed\<close> of Vue keeps the value of the last run of its getter and runs the
  getter again only when it is read after a reactive value that the last run read has
  changed. \<^verbatim>\<open>localStorage\<close> is not reactive, so the only reactive value that the getter
  above can read is \<^verbatim>\<open>currentQuerySnapshot\<close>. The mounted view is the state of its refs
  together with the value that the computed holds (\<open>None\<close> before the first read and
  after a change that it tracked) and whether its last run read the snapshot.
\<close>

record exploreView =
  refs :: exploreState
  cachedBundleCheck :: "bool option"
  tracksSnapshot :: bool

definition mounted :: "exploreState \<Rightarrow> exploreView" where
  "mounted st = \<lparr>refs = st, cachedBundleCheck = None, tracksSnapshot = False\<rparr>"

text \<open>Reading \<^verbatim>\<open>hasOfflineBundleForCurrentQuery.value\<close>, as the template does in
  \<^verbatim>\<open>v-if="hasOfflineBundleForCurrentQuery"\<close>.\<close>

definition hasOfflineBundleForCurrentQuery :: "exploreView \<Rightarrow> bool \<times> exploreView" where
  "hasOfflineBundleForCurrentQuery v =
     (case cachedBundleCheck v of
        Some b \<Rightarrow> (b, v)
      | None \<Rightarrow>
          (let (b, tracked) = hasOfflineBundleGetter (refs v)
           in (b, v\<lparr>cachedBundleCheck := Some b, tracksSnapshot := tracked\<rparr>)))"

text \<open>
  What happens in the view: a filter ref is assigned (by \<^verbatim>\<open>v-model\<close>,
  \<^verbatim>\<open>clearFilters\<close> or the watcher of the route), the list of types is loaded
  (\<^verbatim>\<open>fetchFilterOptions\<close>), a bundle is downloaded, the template is rendered.
\<close>

datatype filterRef = SearchRef | TypeSlugRef | CategoryIdRef | ParishIdRef | MediaRef | OrderingRef

datatype event =
    SetRef filterRef string
  | SetTypes "heritageType list"
  | DownloadForOffline env
  | Render

fun setRef :: "filterRef \<Rightarrow> string \<Rightarrow> exploreState \<Rightarrow> exploreState" where
  "setRef SearchRef s st = st\<lparr>search := s\<rparr>"
| "setRef TypeSlugRef s st = st\<lparr>selectedTypeSlug := s\<rparr>"
| "setRef CategoryIdRef s st = st\<lparr>selectedCategoryId := s\<rparr>"
| "setRef ParishIdRef s st = st\<lparr>selectedParishId := s\<rparr>"
| "setRef MediaRef s st = st\<lparr>selectedMedia := s\<rparr>"
| "setRef OrderingRef s st = st\<lparr>selectedOrdering := s\<rparr>"

text \<open>
  An assignment to the refs marks the computed for a new run when its last run read the
  snapshot and the assignment counts as a change of the snapshot. Which assignments count
  is decided by the reactivity system and is the parameter \<open>triggers\<close> (of the state
  before and after): every version of Vue counts at least those that change a value that
  the getter of the snapshot reads.
\<close>

definition assignRefs ::
  "(exploreState \<Rightarrow> exploreState \<Rightarrow> bool) \<Rightarrow> exploreState \<Rightarrow> exploreView \<Rightarrow> exploreView" where
  "assignRefs triggers st' v =
     (if tracksSnapshot v \<and> triggers (refs v) st'
      then v\<lparr>refs := st', cachedBundleCheck := None\<rparr>
      else v\<lparr>refs := st'\<rparr>)"

text \<open>The values that the getter of \<^verbatim>\<open>currentQuerySnapshot\<close> reads, and the trigger that
  fires when one of them has changed.\<close>

definition snapshotInputs ::
  "exploreState \<Rightarrow> string \<times> string \<times> string \<times> string \<times> string \<times> string" where
  "snapshotInputs st =
     (search st, selectedTypeId st, selectedCategoryId st, selectedParishId st,
      selectedOrdering st, selectedMedia st)"

definition inputChanged :: "exploreState \<Rightarrow> exploreState \<Rightarrow> bool" where
  "inputChanged st st' = (snapshotInputs st \<noteq> snapshotInputs st')"

text \<open>One event. A download assigns \<^verbatim>\<open>offlineDownloading\<close> and
  \<^verbatim>\<open>offlineDownloadError\<close>, which the getters above do not read, and writes
  \<^verbatim>\<open>localStorage\<close>, which is not reactive: the computed keeps its value.\<close>

fun step :: "(exploreState \<Rightarrow> exploreState \<Rightarrow> bool) \<Rightarrow> event \<Rightarrow> exploreView \<Rightarrow> exploreView" where
  "step triggers (SetRef r s) v = assignRefs triggers (setRef r s (refs v)) v"
| "step triggers (SetTypes ts) v = assignRefs triggers ((refs v)\<lparr>types := ts\<rparr>) v"
| "step triggers (DownloadForOffline e) v = v\<lparr>refs := snd (downloadForOffline e (refs v))\<rparr>"
| "step triggers Render v = snd (hasOfflineBundleForCurrentQuery v)"

fun runView ::
  "(exploreState \<Rightarrow> exploreState \<Rightarrow> bool) \<Rightarrow> event list \<Rightarrow> exploreView \<Rightarrow> exploreView" where
  "runView triggers [] v = v"
| "runView triggers (ev # evs) v = runView triggers evs (step triggers ev v)"

text \<open>
  In the words of the specification: the current query exactly matches the query of the
  stored manifest. A stored value without a query stands for the empty query
  (\<^verbatim>\<open>parsed?.query ?? {}\<close>).
\<close>

definition matchesStoredManifest :: "exploreState \<Rightarrow> bool" where
  "matchesStoredManifest st =
     (case offlineArea st of
        Some (Manifest q downloadedAt itemCount) \<Rightarrow> q = currentQuerySnapshot st
      | Some NoQuery \<Rightarrow> currentQuerySnapshot st = []
      | Some NotJson \<Rightarrow> False
      | None \<Rightarrow> False)"

text \<open>What the computed holds: a cached true was computed by a run that read the
  snapshot, and still stands for a match.\<close>

definition cachedTrueIsMatch :: "exploreView \<Rightarrow> bool" where
  "cachedTrueIsMatch v =
     (cachedBundleCheck v = Some True \<longrightarrow> tracksSnapshot v \<and> matchesStoredManifest (refs v))"

section \<open>Concrete views and endpoints\<close>

text \<open>The view searching for ``church'' with the default ordering and no other filter,
  without and with a manifest of an earlier download.\<close>

definition exploring :: exploreState where
  "exploring = \<lparr>search = ''church'', selectedTypeSlug = ''all'', selectedCategoryId = '''',
     selectedParishId = '''', selectedMedia = '''', selectedOrdering = ''-created_at'',
     types = [], offlineDownloading = False, offlineDownloadError = None,
     offlineArea = None\<rparr>"

definition earlierManifest :: stored where
  "earlierManifest = Manifest [(''search'', JStr ''mill'')] 1 9"

definition exploringAgain :: exploreState where
  "exploringAgain = exploring\<lparr>offlineArea := Some earlierManifest\<rparr>"

text \<open>A detail representation with one image, and a media fetch that always fails.\<close>

definition oneImage :: detail where
  "oneImage = \<lparr>primary_image = Some ''/media/a.jpg'', images = [], audio = [], video = [],
     documents = []\<rparr>"

definition everyDetail :: "string \<Rightarrow> detail option" where
  "everyDetail i = Some oneImage"

definition mediaDown :: "string \<Rightarrow> bool" where
  "mediaDown u = False"

text \<open>A list endpoint with three items on two pages.\<close>

definition twoPages :: "params \<Rightarrow> nat \<Rightarrow> nat \<Rightarrow> listData option" where
  "twoPages ps page n =
     (if page = 1 then Some (Envelope (Some [''1'', ''2'']) (Some ''?page=2''))
      else if page = 2 then Some (Envelope (Some [''3'']) None)
      else None)"

definition smallEnv :: env where
  "smallEnv = \<lparr>navigatorOnLine = True, listEndpoint = twoPages, detailEndpoint = everyDetail,
     mediaFetch = mediaDown, clock = 7\<rparr>"

text \<open>The same, with the detail of item 1, the first item of the first page, failing.\<close>

definition detailOf1Fails :: "string \<Rightarrow> detail option" where
  "detailOf1Fails i = (if i = ''1'' then None else Some oneImage)"

definition failingEnv :: env where
  "failingEnv = smallEnv\<lparr>detailEndpoint := detailOf1Fails\<rparr>"

text \<open>A list endpoint that does not paginate: it answers with the bare array of all its
  501 items, whatever page and page size are asked for.\<close>

definition unpaged :: "params \<Rightarrow> nat \<Rightarrow> nat \<Rightarrow> listData option" where
  "unpaged ps page n = Some (BareArray (map showNat [0 ..< 501]))"

definition unpagedEnv :: env where
  "unpagedEnv = smallEnv\<lparr>listEndpoint := unpaged\<rparr>"

text \<open>The property names of a query object, in the order in which
  \<^verbatim>\<open>currentQuerySnapshot\<close> assigns them.\<close>

definition snapshotKeyOrder :: "string list" where
  "snapshotKeyOrder =
     [''search'', ''heritage_type'', ''heritage_category'', ''parish'', ''ordering'',
      ''has_images'', ''has_audio'', ''has_video'', ''has_documents'', ''text_only'']"

text \<open>A view with every kind of filter set: a search with blanks around it, a type, a
  category, a parish, an ordering and a media kind.\<close>

definition filtered :: exploreState where
  "filtered = \<lparr>search = '' mill '', selectedTypeSlug = ''tangible'', selectedCategoryId = ''4'',
     selectedParishId = ''7'', selectedMedia = ''audio'', selectedOrdering = ''-view_count'',
     types = [\<lparr>typeId = 2, slug = ''tangible''\<rparr>], offlineDownloading = False,
     offlineDownloadError = None, offlineArea = None\<rparr>"

text \<open>The view of \<open>exploring\<close> after the download of a bundle from \<open>smallEnv\<close>.\<close>

definition exploringDownloaded :: exploreState where
  "exploringDownloaded =
     exploring\<lparr>offlineArea :=
       Some (Manifest [(''search'', JStr ''church''), (''ordering'', JStr ''-created_at'')] 7 3)\<rparr>"

text \<open>A view is mounted and rendered, and a bundle is downloaded for the query it
  shows.\<close>

definition renderThenDownload :: "event list" where
  "renderThenDownload = [Render, DownloadForOffline smallEnv]"

text \<open>The same, and the view is rendered again; then the search is changed and, after
  one more rendering, changed back.\<close>

definition downloadAndRetype :: "event list" where
  "downloadAndRetype =
     [Render, DownloadForOffline smallEnv, Render, SetRef SearchRef ''mill'', Render,
      SetRef SearchRef ''church'']"

chapter \<open>Properties\<close>

section \<open>The classifier as a decision list\<close>

lemmas match_defs = navigationMatch_def contributionsMatch_def userDataMatch_def
  apiGetMatch_def imagesMatch_def mapTilesMatch_def

lemmas tier_defs = apiListTier_def apiDetailTier_def imagesTier_def mapTilesTier_def

text \<open>Walking the route table in registration order gives this chain of tests. The
  contribution route and the map-tile route do not appear in it: the first is registered
  for \<^verbatim>\<open>GET\<close> and accepts only \<^verbatim>\<open>POST\<close>, the second accepts only requests that the
  image route before it has already taken.\<close>

lemma classify_cases:
  "classify m r =
     (if rmethod r \<noteq> ''GET'' then Unhandled
      else if m r then PrecachedAsset
      else if mode r = ''navigate'' then AppShell
      else if isUserDataPath (pathname r) then NetworkOnly
      else if startsWith (pathname r) ''/api/v1/'' then apiGetHandler r
      else if imagesMatch r then Cached imagesTier
      else Unhandled)"
  by (auto simp add: classify_def findMatchingRoute_def routes_def match_defs)

lemma classify_not_queued: "classify m r \<noteq> NetworkOnlyQueued"
  by (simp add: classify_cases apiGetHandler_def)

lemma tiers_distinct:
  "apiListTier \<noteq> apiDetailTier" "apiListTier \<noteq> imagesTier" "apiListTier \<noteq> mapTilesTier"
  "apiDetailTier \<noteq> imagesTier" "apiDetailTier \<noteq> mapTilesTier" "imagesTier \<noteq> mapTilesTier"
  by (simp_all add: tier_defs)

section \<open>Map tiles\<close>

text \<open>
  Claim C1. A \<^verbatim>\<open>GET\<close> for an image on the OpenStreetMap tile host is not served under
  the map-tile tier (cache-first, 30 days, 2000 entries): the image route is registered
  before the map-tile route and accepts every request whose destination is an image, so
  the tile is cached in \<^verbatim>\<open>images-v1\<close> with a maximum age of 7 days and at most 500
  entries, and no request at all reaches the map-tile tier.
\<close>

theorem map_tile_request_served_by_images_tier:
  "rmethod osmTileRequest = ''GET'' \<and> mapTilesMatch osmTileRequest \<and>
   classify emptyManifest osmTileRequest = Cached imagesTier \<and>
   cacheName imagesTier = ''images-v1'' \<and>
   maxAgeSeconds imagesTier = 60 * 60 * 24 * 7 \<and> maxEntries imagesTier = 500 \<and>
   classify m r \<noteq> Cached mapTilesTier"
  by (simp add: classify_cases osmTileRequest_def emptyManifest_def match_defs tier_defs
      startsWith_def isUserDataPath_def apiGetHandler_def)

section \<open>Identity-bearing paths\<close>

text \<open>
  Claim C2, as stated, fails for a navigation: the browser opening the current-user
  profile of the API is answered with the precached application shell, not from the
  network (the navigation route is registered before the user-data route).
\<close>

theorem identity_path_navigation_served_from_precache:
  "isUserDataPath (pathname profileNavigation) \<and>
   classify emptyManifest profileNavigation = AppShell \<and>
   fst (handleFetch emptyManifest 0 (Some okResponse) profileNavigation initialState)
     = FromPrecache"
  by (simp add: handleFetch_def classify_cases profileNavigation_def emptyManifest_def
      isUserDataPath_def startsWith_def)

text \<open>
  Claim C2, amended. For every request whose path begins with a user-identity prefix
  (\<^verbatim>\<open>/api/v1/auth/\<close>, \<^verbatim>\<open>/api/v1/users/\<close>, \<^verbatim>\<open>/api/v1/notifications/\<close>), whatever its
  method and whatever the state of the worker (so also right after a successful fetch of
  the same URL): the worker's state is unchanged, so no entry is added to any cache tier;
  the request is classified into no tier, in particular not into api-list or api-detail;
  the answer never comes out of a tier cache; and unless the request is a navigation or
  a precached build asset, the answer is the outcome of the network.
\<close>

theorem identity_paths_bypass_every_cache:
  assumes "isUserDataPath (pathname r)"
  shows "snd (handleFetch m now net r st) = st \<and>
         (\<forall>t. classify m r \<noteq> Cached t) \<and>
         (\<forall>resp. fst (handleFetch m now net r st) \<noteq> FromCache resp) \<and>
         (\<not> m r \<and> mode r \<noteq> ''navigate'' \<longrightarrow>
            fst (handleFetch m now net r st) = netAnswer net \<and>
            fst (handleFetch m now' net' r (snd (handleFetch m now net r st))) = netAnswer net')"
  using assms
  by (auto simp add: handleFetch_def classify_cases netAnswer_def split: option.splits)

theorem identity_paths_bypass_every_cache_witness:
  "isUserDataPath (pathname profileFetch) \<and>
   handleFetch emptyManifest 0 (Some okResponse) profileFetch initialState
     = (FromNetwork okResponse, initialState) \<and>
   classify emptyManifest profileFetch = NetworkOnly"
proof -
  have h: "isUserDataPath (pathname profileFetch)"
    by (simp add: profileFetch_def isUserDataPath_def startsWith_def)
  have n: "\<not> emptyManifest profileFetch \<and> mode profileFetch \<noteq> ''navigate''"
    by (simp add: emptyManifest_def profileFetch_def)
  have c: "classify emptyManifest profileFetch = NetworkOnly"
    using h n by (simp add: classify_cases profileFetch_def)
  from identity_paths_bypass_every_cache [OF h, of emptyManifest 0 "Some okResponse" initialState] n
  have "snd (handleFetch emptyManifest 0 (Some okResponse) profileFetch initialState) = initialState"
    and "fst (handleFetch emptyManifest 0 (Some okResponse) profileFetch initialState) = netAnswer (Some okResponse)"
    by simp_all
  then have "handleFetch emptyManifest 0 (Some okResponse) profileFetch initialState
     = (FromNetwork okResponse, initialState)"
    by (simp add: prod_eq_iff netAnswer_def)
  with h c show ?thesis by simp
qed

section \<open>The contribution route\<close>

text \<open>
  Claim C3, as stated, fails for \<^verbatim>\<open>PUT\<close>: a \<^verbatim>\<open>PUT\<close> to the contribution path is taken
  by no route, and when its fetch fails nothing is enqueued.
\<close>

theorem contribution_put_not_queued:
  "rmethod putContribution = ''PUT'' \<and>
   startsWith (pathname putContribution) ''/api/v1/contributions/'' \<and>
   classify emptyManifest putContribution = Unhandled \<and>
   handleFetch emptyManifest 0 None putContribution initialState = (NoResponse, initialState)"
  by (simp add: handleFetch_def classify_cases putContribution_def startsWith_def netAnswer_def)

text \<open>
  Claim C3, amended. The match condition of the durable-write-queue route accepts a
  request exactly when its method is \<^verbatim>\<open>POST\<close> and its path begins with
  \<^verbatim>\<open>/api/v1/contributions/\<close>; a \<^verbatim>\<open>PUT\<close>, \<^verbatim>\<open>PATCH\<close> or \<^verbatim>\<open>DELETE\<close> request is not
  routed to the queue: it goes straight to the network and leaves the worker's state as
  it was. The handler of the queue route attempts the network first and enqueues the
  request only when the fetch fails.
\<close>

theorem contribution_queue_route:
  "(contributionsMatch r \<longleftrightarrow>
      rmethod r = ''POST'' \<and> startsWith (pathname r) ''/api/v1/contributions/'') \<and>
   (rmethod r = ''PUT'' \<or> rmethod r = ''PATCH'' \<or> rmethod r = ''DELETE'' \<longrightarrow>
      \<not> contributionsMatch r \<and> classify m r = Unhandled \<and>
      handleFetch m now net r st = (netAnswer net, st)) \<and>
   networkOnlyQueued now (Some resp) r q = (FromNetwork resp, q) \<and>
   networkOnlyQueued now None r q = (NoResponse, q @ [\<lparr>qrequest = r, enqueuedAt = now\<rparr>])"
  by (auto simp add: contributionsMatch_def classify_cases handleFetch_def networkOnlyQueued_def)

theorem contribution_queue_route_witness:
  "rmethod putContribution = ''PUT'' \<and> \<not> contributionsMatch putContribution \<and>
   handleFetch emptyManifest 0 None putContribution initialState = (NoResponse, initialState)"
  using contribution_queue_route [of putContribution emptyManifest 0 None initialState]
  by (simp add: putContribution_def netAnswer_def)

section \<open>List and detail tiers\<close>

lemma split_on_sep: "c \<notin> set a \<Longrightarrow> split_on c (a @ c # rest) = a # split_on c rest"
  by (induction a) (auto split: list.splits)

lemma split_api_root:
  "split_on (CHR ''/'') (''/api/v1/'' @ rest)
     = [] # ''api'' # ''v1'' # split_on (CHR ''/'') rest"
proof -
  have a: "split_on (CHR ''/'') (''api'' @ CHR ''/'' # (''v1'' @ CHR ''/'' # rest))
        = ''api'' # split_on (CHR ''/'') (''v1'' @ CHR ''/'' # rest)"
    by (rule split_on_sep) simp
  have b: "split_on (CHR ''/'') (''v1'' @ CHR ''/'' # rest) = ''v1'' # split_on (CHR ''/'') rest"
    by (rule split_on_sep) simp
  have "split_on (CHR ''/'') (''/api/v1/'' @ rest)
        = [] # split_on (CHR ''/'') (''api'' @ CHR ''/'' # (''v1'' @ CHR ''/'' # rest))"
    by simp
  with a b show ?thesis by simp
qed

lemma apiResourceParts_api_root:
  "apiResourceParts (''/api/v1/'' @ rest)
     = Some (filter (\<lambda>w. w \<noteq> []) (split_on (CHR ''/'') rest))"
  unfolding apiResourceParts_def split_api_root by (simp add: Let_def)

lemma resourcePath_api_root:
  "resourcePath (''/api/v1/'' @ rest) = filter (\<lambda>w. w \<noteq> []) (split_on (CHR ''/'') rest)"
  by (simp add: resourcePath_def)

text \<open>Under the API root, \<^verbatim>\<open>apiResourceParts\<close> never returns \<^verbatim>\<open>null\<close>: it returns the
  path segments below the root.\<close>

lemma apiResourceParts_under_root:
  assumes "startsWith p ''/api/v1/''"
  shows "apiResourceParts p = Some (resourcePath p)"
proof -
  from assms
  have "take (length ''/api/v1/'') p @ drop (length ''/api/v1/'') p
          = ''/api/v1/'' @ drop (length ''/api/v1/'') p"
    unfolding startsWith_def by simp
  then have "p = ''/api/v1/'' @ drop (length ''/api/v1/'') p"
    by (simp only: append_take_drop_id)
  then obtain rest where p: "p = ''/api/v1/'' @ rest"
    by blast
  show ?thesis
    unfolding p by (simp only: apiResourceParts_api_root resourcePath_api_root)
qed

text \<open>The test of the worker, on the path segments below the API root.\<close>

lemma isListLike_iff:
  "startsWith (pathname r) ''/api/v1/'' \<Longrightarrow>
     isListLike r \<longleftrightarrow>
       length (resourcePath (pathname r)) \<le> 1 \<or> has_param (searchParams r) ''page''"
  by (auto simp add: isListLike_def apiResourceParts_under_root)

text \<open>A request that the worker takes for a list enumerates a collection, and a request
  that addresses a single resource is not taken for a list.\<close>

lemma isListLike_enumerates:
  "startsWith (pathname r) ''/api/v1/'' \<Longrightarrow> isListLike r \<Longrightarrow> enumeratesCollection r"
  by (auto simp add: isListLike_iff enumeratesCollection_def hasTrailingIdentifier_def
      hasPaginationParameter_def)

text \<open>
  Claim C8, as stated, fails in three ways, each for a \<^verbatim>\<open>GET\<close> under the API root that
  is not an identity path and enumerates a collection. The browser navigating to the list
  URL of the API is answered with the application shell. The list of all categories,
  \<^verbatim>\<open>/api/v1/categories/all/\<close>, ends in no identifier and goes to the api-detail tier,
  because two segments follow the API root. A request with the pagination parameter
  \<^verbatim>\<open>page_size\<close> and no \<^verbatim>\<open>page\<close> goes to the api-detail tier, because the worker looks
  for \<^verbatim>\<open>page\<close> only.
\<close>

theorem collections_outside_list_tier:
  "rmethod listNavigation = ''GET'' \<and> startsWith (pathname listNavigation) ''/api/v1/'' \<and>
   \<not> isUserDataPath (pathname listNavigation) \<and> enumeratesCollection listNavigation \<and>
   classify emptyManifest listNavigation = AppShell \<and>
   rmethod allCategoriesFetch = ''GET'' \<and>
   startsWith (pathname allCategoriesFetch) ''/api/v1/'' \<and>
   \<not> isUserDataPath (pathname allCategoriesFetch) \<and>
   \<not> hasTrailingIdentifier allCategoriesFetch \<and> enumeratesCollection allCategoriesFetch \<and>
   \<not> addressesSingleResource allCategoriesFetch \<and>
   classify emptyManifest allCategoriesFetch = Cached apiDetailTier \<and>
   rmethod pageSizeOnlyFetch = ''GET'' \<and>
   startsWith (pathname pageSizeOnlyFetch) ''/api/v1/'' \<and>
   \<not> isUserDataPath (pathname pageSizeOnlyFetch) \<and>
   hasPaginationParameter pageSizeOnlyFetch \<and> enumeratesCollection pageSizeOnlyFetch \<and>
   \<not> addressesSingleResource pageSizeOnlyFetch \<and>
   classify emptyManifest pageSizeOnlyFetch = Cached apiDetailTier"
proof -
  have nav: "rmethod listNavigation = ''GET'' \<and>
      startsWith (pathname listNavigation) ''/api/v1/'' \<and>
      \<not> isUserDataPath (pathname listNavigation) \<and> enumeratesCollection listNavigation \<and>
      classify emptyManifest listNavigation = AppShell"
    by (simp add: classify_cases listNavigation_def emptyManifest_def startsWith_def
        isUserDataPath_def enumeratesCollection_def hasTrailingIdentifier_def resourcePath_def
        hasPaginationParameter_def has_param_def)
  have cat1: "rmethod allCategoriesFetch = ''GET'' \<and>
      startsWith (pathname allCategoriesFetch) ''/api/v1/'' \<and>
      \<not> isUserDataPath (pathname allCategoriesFetch)"
    by (simp add: allCategoriesFetch_def startsWith_def isUserDataPath_def)
  have cat2: "\<not> hasTrailingIdentifier allCategoriesFetch"
    by (simp add: allCategoriesFetch_def hasTrailingIdentifier_def resourcePath_def
        isIdentifier_def isDigit_def isUuid_def)
  have cat3: "classify emptyManifest allCategoriesFetch = Cached apiDetailTier"
    by (simp add: classify_cases allCategoriesFetch_def emptyManifest_def startsWith_def
        isUserDataPath_def apiGetHandler_def isListLike_def apiResourceParts_def
        has_param_def Let_def)
  have ps1: "rmethod pageSizeOnlyFetch = ''GET'' \<and>
      startsWith (pathname pageSizeOnlyFetch) ''/api/v1/'' \<and>
      \<not> isUserDataPath (pathname pageSizeOnlyFetch)"
    by (simp add: pageSizeOnlyFetch_def startsWith_def isUserDataPath_def)
  have ps2: "hasPaginationParameter pageSizeOnlyFetch"
    by (simp add: pageSizeOnlyFetch_def hasPaginationParameter_def has_param_def)
  have ps3: "classify emptyManifest pageSizeOnlyFetch = Cached apiDetailTier"
    by (simp add: classify_cases pageSizeOnlyFetch_def emptyManifest_def startsWith_def
        isUserDataPath_def apiGetHandler_def isListLike_def apiResourceParts_def
        has_param_def Let_def)
  from nav cat1 cat2 cat3 ps1 ps2 ps3 show ?thesis
    by (simp add: enumeratesCollection_def addressesSingleResource_def)
qed

text \<open>
  Claim C8, amended. For every \<^verbatim>\<open>GET\<close> request under the API root that is not an
  identity path, not a navigation and not a precached build asset: it is classified to
  the api-list tier exactly when at most one path segment follows the API root or a
  \<^verbatim>\<open>page\<close> parameter is present, and to the api-detail tier exactly when two or more
  segments follow the API root and no \<^verbatim>\<open>page\<close> parameter is present. So every request
  classified to the api-list tier enumerates a collection, and every request that
  addresses a single resource by identifier, with no pagination parameter, is classified
  to the api-detail tier.
\<close>

theorem api_get_list_or_detail:
  assumes "rmethod r = ''GET''" and "startsWith (pathname r) ''/api/v1/''"
    and "\<not> isUserDataPath (pathname r)"
    and "mode r \<noteq> ''navigate''" and "\<not> m r"
  shows "(classify m r = Cached apiListTier \<longleftrightarrow>
            length (resourcePath (pathname r)) \<le> 1 \<or> has_param (searchParams r) ''page'') \<and>
         (classify m r = Cached apiDetailTier \<longleftrightarrow>
            1 < length (resourcePath (pathname r)) \<and> \<not> has_param (searchParams r) ''page'') \<and>
         (classify m r = Cached apiListTier \<longrightarrow> enumeratesCollection r) \<and>
         (addressesSingleResource r \<longrightarrow> classify m r = Cached apiDetailTier)"
proof -
  from assms have c: "classify m r = apiGetHandler r"
    by (simp add: classify_cases)
  have h: "apiGetHandler r = (if isListLike r then Cached apiListTier else Cached apiDetailTier)"
    by (simp add: apiGetHandler_def)
  note iff = isListLike_iff [OF assms(2)]
  have l: "classify m r = Cached apiListTier \<longleftrightarrow> isListLike r"
    using tiers_distinct(1) by (auto simp add: c h)
  have d: "classify m r = Cached apiDetailTier \<longleftrightarrow> \<not> isListLike r"
    using tiers_distinct(1) by (auto simp add: c h)
  have e: "isListLike r \<longrightarrow> enumeratesCollection r"
    using isListLike_enumerates [OF assms(2)] by blast
  have s: "addressesSingleResource r \<longrightarrow> \<not> isListLike r"
    using e by (auto simp add: enumeratesCollection_def addressesSingleResource_def)
  from l d e s iff show ?thesis
    by auto
qed

theorem api_get_list_or_detail_witness:
  "rmethod detailFetch = ''GET'' \<and> startsWith (pathname detailFetch) ''/api/v1/'' \<and>
   \<not> isUserDataPath (pathname detailFetch) \<and> mode detailFetch \<noteq> ''navigate'' \<and>
   \<not> emptyManifest detailFetch \<and> addressesSingleResource detailFetch \<and>
   resourcePath (pathname detailFetch) = [''heritage-items'', ''5''] \<and>
   classify emptyManifest detailFetch = Cached apiDetailTier \<and>
   resourcePath (pathname listFetch) = [''heritage-items''] \<and>
   enumeratesCollection listFetch \<and> classify emptyManifest listFetch = Cached apiListTier"
proof -
  have d: "rmethod detailFetch = ''GET''" "startsWith (pathname detailFetch) ''/api/v1/''"
    "\<not> isUserDataPath (pathname detailFetch)" "mode detailFetch \<noteq> ''navigate''"
    "\<not> emptyManifest detailFetch"
    by (simp_all add: detailFetch_def startsWith_def isUserDataPath_def emptyManifest_def)
  have l: "rmethod listFetch = ''GET''" "startsWith (pathname listFetch) ''/api/v1/''"
    "\<not> isUserDataPath (pathname listFetch)" "mode listFetch \<noteq> ''navigate''"
    "\<not> emptyManifest listFetch"
    by (simp_all add: listFetch_def startsWith_def isUserDataPath_def emptyManifest_def)
  have ad: "addressesSingleResource detailFetch"
    by (simp add: addressesSingleResource_def hasTrailingIdentifier_def resourcePath_def
        hasPaginationParameter_def has_param_def detailFetch_def isIdentifier_def isDigit_def)
  have rd: "resourcePath (pathname detailFetch) = [''heritage-items'', ''5'']"
    by (simp add: resourcePath_def detailFetch_def)
  have rl: "resourcePath (pathname listFetch) = [''heritage-items'']"
    by (simp add: resourcePath_def listFetch_def)
  from api_get_list_or_detail [of detailFetch emptyManifest, OF d] ad
  have cd: "classify emptyManifest detailFetch = Cached apiDetailTier"
    by blast
  from api_get_list_or_detail [of listFetch emptyManifest, OF l] rl
  have cl: "classify emptyManifest listFetch = Cached apiListTier \<and> enumeratesCollection listFetch"
    by simp
  from d ad rd cd rl cl show ?thesis by simp
qed

section \<open>What the tier caches hold\<close>

lemma cacheable_allTiers:
  "t \<in> set allTiers \<Longrightarrow> cacheable t r \<longleftrightarrow> status r = 0 \<or> status r = 200"
  by (auto simp add: allTiers_def cacheable_def tier_defs)

lemma onlyOkEntries_evict: "onlyOkEntries c \<Longrightarrow> onlyOkEntries (evict t c)"
  unfolding onlyOkEntries_def evict_def by (meson in_set_dropD)

lemma onlyOkEntries_cachePut:
  assumes "t \<in> set allTiers" and "onlyOkEntries c"
  shows "onlyOkEntries (cachePut t now c k r)"
proof (cases "cacheable t r")
  case True
  with assms(1) have "status r = 0 \<or> status r = 200"
    by (simp add: cacheable_allTiers)
  with assms(2)
  have "onlyOkEntries (filter (\<lambda>e. ekey e \<noteq> k) c @ [\<lparr>ekey = k, eresp = r, storedAt = now\<rparr>])"
    by (auto simp add: onlyOkEntries_def)
  with True show ?thesis
    by (simp add: cachePut_def onlyOkEntries_evict)
next
  case False
  with assms(2) show ?thesis by (simp add: cachePut_def)
qed

lemma cacheMatch_onlyOk:
  assumes "onlyOkEntries c" and "cacheMatch t now c k = Some r"
  shows "status r = 0 \<or> status r = 200"
proof -
  from assms(2) obtain e where "find (\<lambda>e. ekey e = k) c = Some e" and r: "r = eresp e"
    by (auto simp add: cacheMatch_def split: option.splits if_splits)
  then have "e \<in> set c"
    by (auto simp add: find_Some_iff)
  with assms(1) r show ?thesis
    by (simp add: onlyOkEntries_def)
qed

lemma runStrategy_onlyOk:
  assumes "t \<in> set allTiers" and "onlyOkEntries c"
  shows "onlyOkEntries (snd (runStrategy t now net k c))"
  using assms
  by (cases "tstrategy t")
     (auto simp add: runStrategy_def onlyOkEntries_cachePut Let_def split: option.splits)

lemma runStrategy_served_from_cache:
  assumes "onlyOkEntries c" and "fst (runStrategy t now net k c) = FromCache r"
  shows "status r = 0 \<or> status r = 200"
proof -
  from assms(2) have "cacheMatch t now c k = Some r"
    by (cases "tstrategy t")
       (auto simp add: runStrategy_def Let_def netAnswer_def split: option.splits)
  with assms(1) show ?thesis by (rule cacheMatch_onlyOk)
qed

lemma classify_tier: "classify m r = Cached t \<Longrightarrow> t \<in> set allTiers"
  by (auto simp add: classify_cases apiGetHandler_def allTiers_def split: if_splits)

lemma handleFetch_onlyOk:
  assumes "\<And>n. onlyOkEntries (caches st n)"
  shows "onlyOkEntries (caches (snd (handleFetch m now net r st)) n)"
proof (cases "classify m r")
  case (Cached t)
  then have "t \<in> set allTiers" by (rule classify_tier)
  then have "onlyOkEntries (snd (runStrategy t now net (href r) (caches st (cacheName t))))"
    using assms by (rule runStrategy_onlyOk)
  with Cached assms show ?thesis
    by (simp add: handleFetch_def split_beta)
qed (use assms in \<open>simp_all add: handleFetch_def split_beta classify_not_queued\<close>)

lemma handleAll_onlyOk:
  assumes "\<And>n. onlyOkEntries (caches st n)"
  shows "onlyOkEntries (caches (handleAll m evs st) n)"
  using assms
proof (induction evs arbitrary: st n)
  case Nil
  then show ?case by simp
next
  case (Cons ev evs)
  obtain now net r where ev: "ev = (now, net, r)" by (cases ev)
  show ?case
    unfolding ev handleAll.simps
    by (rule Cons.IH) (rule handleFetch_onlyOk, rule Cons.prems)
qed

lemma handleFetch_served_from_cache:
  assumes "\<And>n. onlyOkEntries (caches st n)"
    and "fst (handleFetch m now net r st) = FromCache resp"
  shows "status resp = 0 \<or> status resp = 200"
proof (cases "classify m r")
  case (Cached t)
  with assms(2) have "fst (runStrategy t now net (href r) (caches st (cacheName t))) = FromCache resp"
    by (simp add: handleFetch_def split_beta)
  with assms(1) show ?thesis by (rule runStrategy_served_from_cache)
qed (use assms(2) in \<open>auto simp add: handleFetch_def split_beta netAnswer_def
       networkOnlyQueued_def split: option.splits\<close>)

text \<open>
  Claim C10. Every cache tier (api-list, api-detail, images, map-tile) lets a response
  into its cache exactly when the status is 0 or 200; a response with an error status
  (400 and above) leaves the cache as it was, whichever strategy handles it. Hence,
  starting from empty caches and after any sequence of fetch events, every cache of the
  worker holds only responses of status 0 or 200, and every answer served from a cache
  has status 0 or 200.
\<close>

theorem tiers_store_only_status_0_or_200:
  "(t \<in> set allTiers \<longrightarrow>
      (cacheable t r \<longleftrightarrow> status r = 0 \<or> status r = 200) \<and>
      (400 \<le> status r \<longrightarrow>
         cachePut t now c k r = c \<and> snd (runStrategy t now (Some r) k c) = c)) \<and>
   onlyOkEntries (caches (handleAll m evs initialState) n) \<and>
   (fst (handleFetch m now' net rq (handleAll m evs initialState)) = FromCache resp \<longrightarrow>
      status resp = 0 \<or> status resp = 200)"
proof -
  have init: "\<And>n. onlyOkEntries (caches initialState n)"
    by (simp add: initialState_def onlyOkEntries_def)
  have reach: "\<And>n. onlyOkEntries (caches (handleAll m evs initialState) n)"
    by (rule handleAll_onlyOk) (rule init)
  have tierwise: "(cacheable t r \<longleftrightarrow> status r = 0 \<or> status r = 200) \<and>
      (400 \<le> status r \<longrightarrow>
         cachePut t now c k r = c \<and> snd (runStrategy t now (Some r) k c) = c)"
    if t: "t \<in> set allTiers"
  proof -
    have a: "cacheable t r \<longleftrightarrow> status r = 0 \<or> status r = 200"
      using t by (rule cacheable_allTiers)
    have b: "cachePut t now c k r = c" if "400 \<le> status r"
      using that a by (simp add: cachePut_def)
    have "snd (runStrategy t now (Some r) k c) = c" if "400 \<le> status r"
      using b [OF that]
      by (cases "tstrategy t") (auto simp add: runStrategy_def Let_def split: option.splits)
    with a b show ?thesis by blast
  qed
  from tierwise reach handleFetch_served_from_cache [OF reach] show ?thesis
    by blast
qed

theorem tiers_store_only_status_0_or_200_witness:
  "mapTilesTier \<in> set allTiers \<and> 400 \<le> status errorResponse \<and>
   \<not> cacheable mapTilesTier errorResponse \<and>
   snd (runStrategy mapTilesTier 0 (Some errorResponse) ''u'' []) = [] \<and>
   fst (handleFetch emptyManifest 1 None listFetch
          (handleAll emptyManifest [(0, Some okResponse, listFetch)] initialState))
     = FromCache okResponse \<and>
   status okResponse = 200"
proof -
  have t: "mapTilesTier \<in> set allTiers" by (simp add: allTiers_def)
  have e: "400 \<le> status errorResponse" by (simp add: errorResponse_def)
  have c: "classify emptyManifest listFetch = Cached apiListTier"
    by (simp add: classify_cases listFetch_def emptyManifest_def isUserDataPath_def
        startsWith_def apiGetHandler_def isListLike_def has_param_def)
  have s: "fst (handleFetch emptyManifest 1 None listFetch
          (handleAll emptyManifest [(0, Some okResponse, listFetch)] initialState))
     = FromCache okResponse"
    by (simp add: handleFetch_def c runStrategy_def apiListTier_def cachePut_def cacheable_def
        okResponse_def evict_def cacheMatch_def initialState_def)
  from tiers_store_only_status_0_or_200
         [of mapTilesTier errorResponse 0 "[]" "''u''" emptyManifest
             "[(0, Some okResponse, listFetch)]" "''api-list-v1''" 1 None listFetch okResponse]
       t e s
  show ?thesis by (simp add: okResponse_def errorResponse_def)
qed

section \<open>Submitting a contribution while offline\<close>

lemma classify_postContribution: "classify m postContribution = Unhandled"
  by (simp add: classify_cases postContribution_def)

lemma apiRequest_postContribution:
  "apiRequest m now net postContribution sw
     = (if unauthorized (netAnswer (net False)) then netAnswer (net True)
        else netAnswer (net False), sw)"
  by (simp add: apiRequest_def handleFetch_def classify_postContribution)

text \<open>
  Claim C4, evaluated on the code. With no connectivity the \<^verbatim>\<open>POST\<close> of the
  contribution form is taken by no route of the worker (the queue route is registered for
  \<^verbatim>\<open>GET\<close>), so nothing is serialized into the durable queue, while the form, seeing
  \<^verbatim>\<open>navigator.onLine === false\<close>, reports the contribution as queued. In no state, on
  no network outcome, does submitting a contribution change the queue. A rejection by
  the server while online is reported to the user and is not queued.
\<close>

theorem offline_contribution_not_enqueued:
  "classify emptyManifest postContribution = Unhandled \<and>
   submitContribution emptyManifest 0 False noConnectivity (initialState, initialForm)
     = (initialState, initialForm\<lparr>queuedOffline := True, submittedSuccess := True\<rparr>) \<and>
   queue initialState = [] \<and>
   queue (fst (submitContribution m now onLine net s)) = queue (fst s) \<and>
   submitContribution emptyManifest 0 True serverRejects (initialState, initialForm)
     = (initialState, initialForm\<lparr>alerts := [''contribution.actions.error'']\<rparr>)"
  by (simp add: submitContribution_def apiRequest_postContribution classify_postContribution
      noConnectivity_def serverRejects_def netAnswer_def resolved_def unauthorized_def
      initialForm_def initialState_def Let_def)

section \<open>The replay pass\<close>

lemma replayRequests_prefix:
  "prefix (fst (replayRequests now net q)) (filter (\<lambda>e. \<not> expired now e) q)"
  by (induction q) (auto split: option.splits prod.splits)

lemma replayRequests_suffix: "suffix (snd (replayRequests now net q)) q"
proof (induction q)
  case Nil
  then show ?case by simp
next
  case (Cons e q)
  then have "suffix (snd (replayRequests now net q)) (e # q)"
    by (rule suffix_ConsI)
  then show ?case
    by (auto split: option.splits prod.splits)
qed

lemma replayRequests_stopped:
  "snd (replayRequests now net q) \<noteq> [] \<Longrightarrow>
     fst (replayRequests now net q) \<noteq> [] \<and>
     hd (snd (replayRequests now net q)) = last (fst (replayRequests now net q)) \<and>
     net (qrequest (last (fst (replayRequests now net q)))) = None"
  by (induction q) (auto split: option.splits prod.splits if_splits)

lemma replayRequests_stopped_sent:
  "replayRequests now net q = (s, r) \<Longrightarrow> r \<noteq> [] \<Longrightarrow> s \<noteq> []"
  using replayRequests_stopped [of now net q] by simp

lemma replayed_Cons_ok:
  assumes "\<not> expired now e" and "net (qrequest e) = Some resp"
  shows "replayed (replayRequests now net (e # q)) = e # replayed (replayRequests now net q)"
proof -
  obtain s r where eq: "replayRequests now net q = (s, r)"
    by (cases "replayRequests now net q")
  show ?thesis
  proof (cases "r = []")
    case True
    with assms eq show ?thesis by (simp add: replayed_def)
  next
    case False
    with eq have "s \<noteq> []" by (rule replayRequests_stopped_sent)
    with False assms eq show ?thesis by (simp add: replayed_def)
  qed
qed

lemma replayed_Cons_expired:
  "expired now e \<Longrightarrow>
     replayed (replayRequests now net (e # q)) = replayed (replayRequests now net q)"
  by (simp add: replayed_def)

lemma replayed_Cons_failed:
  "\<not> expired now e \<Longrightarrow> net (qrequest e) = None \<Longrightarrow>
     replayed (replayRequests now net (e # q)) = []"
  by (simp add: replayed_def)

lemma snd_replay_Cons_ok:
  "\<not> expired now e \<Longrightarrow> net (qrequest e) = Some resp \<Longrightarrow>
     snd (replayRequests now net (e # q)) = snd (replayRequests now net q)"
  by (simp split: prod.splits)

lemma snd_replay_Cons_expired:
  "expired now e \<Longrightarrow> snd (replayRequests now net (e # q)) = snd (replayRequests now net q)"
  by simp

lemma snd_replay_Cons_failed:
  "\<not> expired now e \<Longrightarrow> net (qrequest e) = None \<Longrightarrow>
     snd (replayRequests now net (e # q)) = e # q"
  by simp

lemma replayRequests_removed:
  "\<exists>pre. q = pre @ snd (replayRequests now net q) \<and>
         filter (\<lambda>e. \<not> expired now e) pre = replayed (replayRequests now net q)"
proof (induction q)
  case Nil
  then show ?case by (simp add: replayed_def)
next
  case (Cons e q)
  then obtain pre where pre: "q = pre @ snd (replayRequests now net q)"
    "filter (\<lambda>e. \<not> expired now e) pre = replayed (replayRequests now net q)"
    by blast
  show ?case
  proof (cases "expired now e")
    case True
    have "e # q = (e # pre) @ snd (replayRequests now net (e # q))"
      unfolding snd_replay_Cons_expired [OF True] using pre(1) by simp
    moreover
    have "filter (\<lambda>e. \<not> expired now e) (e # pre) = replayed (replayRequests now net (e # q))"
      unfolding replayed_Cons_expired [OF True] using pre(2) True by simp
    ultimately show ?thesis by blast
  next
    case fresh: False
    show ?thesis
    proof (cases "net (qrequest e)")
      case None
      have "e # q = [] @ snd (replayRequests now net (e # q))"
        unfolding snd_replay_Cons_failed [where net = net, OF fresh None] by simp
      moreover
      have "filter (\<lambda>e. \<not> expired now e) [] = replayed (replayRequests now net (e # q))"
        unfolding replayed_Cons_failed [where net = net, OF fresh None] by simp
      ultimately show ?thesis by blast
    next
      case (Some resp)
      have "e # q = (e # pre) @ snd (replayRequests now net (e # q))"
        unfolding snd_replay_Cons_ok [where net = net, OF fresh Some] using pre(1) by simp
      moreover
      have "filter (\<lambda>e. \<not> expired now e) (e # pre) = replayed (replayRequests now net (e # q))"
        unfolding replayed_Cons_ok [where net = net, OF fresh Some] using pre(2) fresh by simp
      ultimately show ?thesis by blast
    qed
  qed
qed

lemma replayed_answered:
  "e \<in> set (replayed (replayRequests now net q)) \<Longrightarrow> net (qrequest e) \<noteq> None"
proof (induction q)
  case Nil
  then show ?case by (simp add: replayed_def)
next
  case (Cons x q)
  show ?case
  proof (cases "expired now x")
    case True
    from Cons.prems have "e \<in> set (replayed (replayRequests now net q))"
      unfolding replayed_Cons_expired [OF True] .
    then show ?thesis by (rule Cons.IH)
  next
    case fresh: False
    show ?thesis
    proof (cases "net (qrequest x)")
      case None
      from Cons.prems show ?thesis
        unfolding replayed_Cons_failed [where net = net, OF fresh None] by simp
    next
      case (Some resp)
      from Cons.prems have "e = x \<or> e \<in> set (replayed (replayRequests now net q))"
        unfolding replayed_Cons_ok [where net = net, OF fresh Some] by simp
      with Some Cons.IH show ?thesis by auto
    qed
  qed
qed

lemma fresh_after:
  assumes "sorted (map enqueuedAt (e # q))" and "\<not> expired now e" and "x \<in> set q"
  shows "\<not> expired now x"
proof -
  from assms(1,3) have "enqueuedAt e \<le> enqueuedAt x" by auto
  with assms(2) show ?thesis by (simp add: expired_def)
qed

lemma replayRequests_drops_expired:
  "enqueuedInOrder q \<Longrightarrow> x \<in> set (snd (replayRequests now net q)) \<Longrightarrow> \<not> expired now x"
proof (induction q)
  case Nil
  then show ?case by simp
next
  case (Cons e q)
  from Cons.prems(1) have sq: "enqueuedInOrder q"
    by (simp add: enqueuedInOrder_def)
  show ?case
  proof (cases "expired now e")
    case True
    with Cons.prems(2) have "x \<in> set (snd (replayRequests now net q))" by simp
    with sq show ?thesis by (rule Cons.IH)
  next
    case fresh: False
    show ?thesis
    proof (cases "net (qrequest e)")
      case None
      with fresh Cons.prems(2) have "x = e \<or> x \<in> set q" by simp
      with fresh Cons.prems(1) show ?thesis
        unfolding enqueuedInOrder_def using fresh_after by blast
    next
      case (Some resp)
      with fresh Cons.prems(2) have "x \<in> set (snd (replayRequests now net q))"
        by (simp split: prod.splits)
      with sq show ?thesis by (rule Cons.IH)
    qed
  qed
qed

text \<open>
  Claim C5. A replay pass over the queue \<open>q\<close> sends a prefix of the entries of \<open>q\<close> that
  are inside the retention window, in queue order: entries are reissued oldest first, in
  submission order (the sent list is a subsequence of the queue), and an entry older than
  24 hours is never sent. The queue that remains is a tail of \<open>q\<close>: everything before it
  was either dropped as expired or sent and answered, and each entry sent and answered
  is removed. When the pass stops with entries left, the first entry left is the last
  one sent, its replay failed, and nothing behind it was sent. An expired entry at the
  head of the queue is dropped without being sent; in a queue enqueued in the order of
  the timestamps no expired entry is left after the pass. The retention window is 24
  hours.
\<close>

theorem replay_is_fifo:
  assumes "replayRequests now net q = (sent, rest)"
  shows "prefix sent (filter (\<lambda>e. \<not> expired now e) q) \<and> subseq sent q \<and>
         (\<forall>e \<in> set sent. \<not> expired now e) \<and>
         suffix rest q \<and>
         (\<exists>pre. q = pre @ rest \<and>
            filter (\<lambda>e. \<not> expired now e) pre = (if rest = [] then sent else butlast sent)) \<and>
         (\<forall>e \<in> set (if rest = [] then sent else butlast sent). net (qrequest e) \<noteq> None) \<and>
         (rest \<noteq> [] \<longrightarrow>
            sent \<noteq> [] \<and> hd rest = last sent \<and> net (qrequest (last sent)) = None) \<and>
         (\<forall>e. expired now e \<longrightarrow> replayRequests now net (e # q) = (sent, rest)) \<and>
         (enqueuedInOrder q \<longrightarrow> (\<forall>e \<in> set rest. \<not> expired now e)) \<and>
         retentionMs = 24 * 60 * 60 * 1000"
proof -
  have s: "sent = fst (replayRequests now net q)" and r: "rest = snd (replayRequests now net q)"
    using assms by simp_all
  have rp: "replayed (replayRequests now net q) = (if rest = [] then sent else butlast sent)"
    using assms by (simp add: replayed_def)
  have p: "prefix sent (filter (\<lambda>e. \<not> expired now e) q)"
    unfolding s by (rule replayRequests_prefix)
  then have sub: "subseq sent (filter (\<lambda>e. \<not> expired now e) q)"
    by (rule prefix_imp_subseq)
  have "subseq (filter (\<lambda>e. \<not> expired now e) q) q"
    by (rule subseq_filter_left)
  with sub have sq: "subseq sent q"
    by (rule subseq_order.order_trans)
  from p have "set sent \<subseteq> set (filter (\<lambda>e. \<not> expired now e) q)"
    by (rule set_mono_prefix)
  then have fr: "\<forall>e \<in> set sent. \<not> expired now e"
    by auto
  have su: "suffix rest q"
    unfolding r by (rule replayRequests_suffix)
  have rm: "\<exists>pre. q = pre @ rest \<and>
            filter (\<lambda>e. \<not> expired now e) pre = (if rest = [] then sent else butlast sent)"
    using replayRequests_removed [of q now net] unfolding rp r [symmetric] .
  have an: "\<forall>e \<in> set (if rest = [] then sent else butlast sent). net (qrequest e) \<noteq> None"
    using replayed_answered [of _ now net q] unfolding rp by blast
  have st: "rest \<noteq> [] \<longrightarrow>
            sent \<noteq> [] \<and> hd rest = last sent \<and> net (qrequest (last sent)) = None"
    using replayRequests_stopped [of now net q] unfolding s r by blast
  have ex: "\<forall>e. expired now e \<longrightarrow> replayRequests now net (e # q) = (sent, rest)"
    using assms by simp
  have dr: "enqueuedInOrder q \<longrightarrow> (\<forall>e \<in> set rest. \<not> expired now e)"
    using replayRequests_drops_expired [of q _ now net] unfolding r by blast
  have rt: "retentionMs = 24 * 60 * 60 * 1000"
    by (simp add: retentionMs_def maxRetentionTime_def)
  from p sq fr su rm an st ex dr rt show ?thesis by blast
qed

theorem replay_is_fifo_witness:
  "replayRequests 5000 alwaysOk [queuedA, queuedB] = ([queuedA, queuedB], []) \<and>
   subseq [queuedA, queuedB] [queuedA, queuedB] \<and>
   replayRequests 5000 alwaysFails [queuedA, queuedB] = ([queuedA], [queuedA, queuedB]) \<and>
   hd [queuedA, queuedB] = last [queuedA] \<and>
   alwaysFails (qrequest (last [queuedA])) = None \<and>
   expired (24 * 60 * 60 * 1000 + 1001) queuedA \<and>
   replayRequests (24 * 60 * 60 * 1000 + 1001) alwaysOk [queuedA, queuedB] = ([queuedB], [])"
proof -
  have ex: "expired (24 * 60 * 60 * 1000 + 1001) queuedA"
    by (simp add: expired_def retentionMs_def maxRetentionTime_def queuedA_def)
  have fresh: "\<not> expired (24 * 60 * 60 * 1000 + 1001) queuedB"
    "\<not> expired 5000 queuedA" "\<not> expired 5000 queuedB"
    by (simp_all add: expired_def retentionMs_def maxRetentionTime_def queuedA_def queuedB_def)
  have a: "replayRequests 5000 alwaysOk [queuedA, queuedB] = ([queuedA, queuedB], [])"
    using fresh by (simp add: alwaysOk_def)
  have b: "replayRequests 5000 alwaysFails [queuedA, queuedB] = ([queuedA], [queuedA, queuedB])"
    using fresh by (simp add: alwaysFails_def)
  have c: "replayRequests (24 * 60 * 60 * 1000 + 1001) alwaysOk [queuedB] = ([queuedB], [])"
    using fresh by (simp add: alwaysOk_def)
  from replay_is_fifo [OF a] have a': "subseq [queuedA, queuedB] [queuedA, queuedB]"
    by blast
  from replay_is_fifo [OF b]
  have b': "hd [queuedA, queuedB] = last [queuedA] \<and> alwaysFails (qrequest (last [queuedA])) = None"
    by blast
  from replay_is_fifo [OF c] ex
  have c': "replayRequests (24 * 60 * 60 * 1000 + 1001) alwaysOk [queuedA, queuedB] = ([queuedB], [])"
    by blast
  from a a' b b' ex c' show ?thesis
    by (intro conjI) (erule conjunct1 conjunct2 | assumption)+
qed

section \<open>The item loop and the page loop of the offline bundle\<close>

lemma itemLoop_no_list_call: "c \<in> set (fst (itemLoop e rs t)) \<Longrightarrow> \<not> isListCall c"
  by (induction rs arbitrary: t c) (auto simp add: Let_def split_beta split: option.splits)

lemma itemLoop_filter_list: "filter isListCall (fst (itemLoop e rs t)) = []"
  by (simp add: filter_empty_conv itemLoop_no_list_call)

lemma itemLoop_detail_calls_le:
  "length (filter isDetailCall (fst (itemLoop e rs t))) \<le> length rs"
  by (induction rs arbitrary: t) (auto simp add: Let_def split_beta split: option.splits)

lemma itemLoop_total:
  "\<not> isl (snd (itemLoop e rs t)) \<Longrightarrow> snd (itemLoop e rs t) = Inr (t + length rs)"
proof (induction rs arbitrary: t)
  case Nil
  then show ?case by simp
next
  case (Cons i rs)
  show ?case
  proof (cases "detailEndpoint e i")
    case None
    with Cons.prems show ?thesis by simp
  next
    case (Some d)
    with Cons.prems have "\<not> isl (snd (itemLoop e rs (t + 1)))"
      by (simp add: split_beta)
    then have "snd (itemLoop e rs (t + 1)) = Inr (t + 1 + length rs)"
      by (rule Cons.IH)
    with Some show ?thesis by (simp add: split_beta)
  qed
qed

lemma itemLoop_detail_calls:
  "\<not> isl (snd (itemLoop e rs t)) \<Longrightarrow>
     length (filter isDetailCall (fst (itemLoop e rs t))) = length rs"
  by (induction rs arbitrary: t) (auto simp add: Let_def split_beta split: option.splits)

lemma itemLoop_count:
  assumes "snd (itemLoop e rs t) = Inr n"
  shows "n = t + length rs \<and> length (filter isDetailCall (fst (itemLoop e rs t))) = length rs"
proof -
  from assms have "\<not> isl (snd (itemLoop e rs t))" by simp
  with assms itemLoop_total [of e rs t] itemLoop_detail_calls [of e rs t] show ?thesis
    by simp
qed

lemma itemLoop_media_independent:
  "snd (itemLoop (e\<lparr>mediaFetch := f\<rparr>) rs t) = snd (itemLoop e rs t)"
  by (induction rs arbitrary: t) (auto simp add: Let_def split_beta split: option.splits)

lemma itemLoop_aborts_iff:
  "isl (snd (itemLoop e rs t)) \<longleftrightarrow>
     (\<exists>i. DetailCall i \<in> set (fst (itemLoop e rs t)) \<and> detailEndpoint e i = None)"
  by (induction rs arbitrary: t) (auto simp add: Let_def split_beta split: option.splits)

text \<open>A run of the item loop that ends without an error issued no call that failed;
  a run that ends in an error stopped at the call that failed: it is the last call, and
  no call before it failed.\<close>

lemma itemLoop_ok_none_failed:
  "\<not> isl (snd (itemLoop e rs t)) \<Longrightarrow> c \<in> set (fst (itemLoop e rs t)) \<Longrightarrow> \<not> failedCall e c"
  by (induction rs arbitrary: t c) (auto simp add: Let_def split_beta split: option.splits)

lemma itemLoop_failed_last:
  "isl (snd (itemLoop e rs t)) \<Longrightarrow>
     \<exists>pre c. fst (itemLoop e rs t) = pre @ [c] \<and> failedCall e c \<and>
             (\<forall>x\<in>set pre. \<not> failedCall e x)"
proof (induction rs arbitrary: t)
  case Nil
  then show ?case by simp
next
  case (Cons i rs)
  show ?case
  proof (cases "detailEndpoint e i")
    case None
    then have "fst (itemLoop e (i # rs) t) = [] @ [DetailCall i]" by simp
    moreover from None have "failedCall e (DetailCall i)" by simp
    ultimately show ?thesis by fastforce
  next
    case (Some d)
    with Cons.prems have "isl (snd (itemLoop e rs (t + 1)))"
      by (simp add: split_beta)
    from Cons.IH [OF this] obtain pre c
      where pre: "fst (itemLoop e rs (t + 1)) = pre @ [c]" "failedCall e c"
        "\<forall>x\<in>set pre. \<not> failedCall e x"
      by blast
    let ?warm = "map (\<lambda>u. MediaCall u (mediaFetch e u)) (mediaUrls d)"
    from Some pre(1) have "fst (itemLoop e (i # rs) t) = (DetailCall i # ?warm @ pre) @ [c]"
      by (simp add: split_beta)
    moreover from Some pre(3) have "\<forall>x\<in>set (DetailCall i # ?warm @ pre). \<not> failedCall e x"
      by auto
    ultimately show ?thesis using pre(2) by blast
  qed
qed

text \<open>One turn of the page loop, case by case.\<close>

lemma pageLoop_cases [case_names finished listFailed detailFailed lastPage nextPage]:
  obtains
    "\<not> page \<le> maxPages" and "pageLoop e b page t = ([], Inr t)"
  | "page \<le> maxPages" and "listEndpoint e b page pageSize = None"
      and "pageLoop e b page t = ([ListCall b page pageSize], Inl (ListFetchFailed page))"
  | d cs err where "page \<le> maxPages" and "listEndpoint e b page pageSize = Some d"
      and "itemLoop e (resultsOf d) t = (cs, Inl err)"
      and "pageLoop e b page t = (ListCall b page pageSize # cs, Inl err)"
  | d cs t' where "page \<le> maxPages" and "listEndpoint e b page pageSize = Some d"
      and "itemLoop e (resultsOf d) t = (cs, Inr t')"
      and "\<not> hasNext d \<or> resultsOf d = []"
      and "pageLoop e b page t = (ListCall b page pageSize # cs, Inr t')"
  | d cs t' where "page \<le> maxPages" and "listEndpoint e b page pageSize = Some d"
      and "itemLoop e (resultsOf d) t = (cs, Inr t')"
      and "hasNext d" and "resultsOf d \<noteq> []"
      and "pageLoop e b page t =
             (ListCall b page pageSize # cs @ fst (pageLoop e b (page + 1) t'),
              snd (pageLoop e b (page + 1) t'))"
proof (cases "page \<le> maxPages")
  case False
  then have "pageLoop e b page t = ([], Inr t)" by simp
  with False show ?thesis by (rule that(1))
next
  case le: True
  show ?thesis
  proof (cases "listEndpoint e b page pageSize")
    case None
    with le have "pageLoop e b page t = ([ListCall b page pageSize], Inl (ListFetchFailed page))"
      by simp
    with le None show ?thesis by (rule that(2))
  next
    case (Some d)
    obtain cs res where il: "itemLoop e (resultsOf d) t = (cs, res)"
      by (cases "itemLoop e (resultsOf d) t")
    show ?thesis
    proof (cases res)
      case (Inl err)
      with le Some il have "pageLoop e b page t = (ListCall b page pageSize # cs, Inl err)"
        by simp
      with le Some il Inl show ?thesis using that(3) by blast
    next
      case (Inr t')
      show ?thesis
      proof (cases "\<not> hasNext d \<or> resultsOf d = []")
        case True
        with le Some il Inr have "pageLoop e b page t = (ListCall b page pageSize # cs, Inr t')"
          by auto
        with le Some il Inr True show ?thesis using that(4) by blast
      next
        case False
        with le Some il Inr
        have "pageLoop e b page t =
             (ListCall b page pageSize # cs @ fst (pageLoop e b (page + 1) t'),
              snd (pageLoop e b (page + 1) t'))"
          by (simp add: split_beta del: pageLoop.simps add: pageLoop.simps [of e b page t])
        with le Some il Inr False show ?thesis using that(5) by blast
      qed
    qed
  qed
qed
declare pageLoop.simps [simp del]

text \<open>The list calls of the page loop are the pages \<open>page\<close>, \<open>page + 1\<close>, ... in turn,
  each with the fixed page size, and none beyond \<open>maxPages\<close>.\<close>

lemma pageLoop_list_calls:
  "\<exists>k. page + k \<le> max page (maxPages + 1) \<and>
       filter isListCall (fst (pageLoop e b page t))
         = map (\<lambda>p. ListCall b p pageSize) [page ..< page + k]"
proof (induction "maxPages + 1 - page" arbitrary: page t)
  case 0
  then have "\<not> page \<le> maxPages" by simp
  then have "pageLoop e b page t = ([], Inr t)"
    by (simp add: pageLoop.simps)
  then have "page + 0 \<le> max page (maxPages + 1) \<and>
       filter isListCall (fst (pageLoop e b page t))
         = map (\<lambda>p. ListCall b p pageSize) [page ..< page + 0]"
    by simp
  then show ?case by blast
next
  case (Suc n)
  then have le: "page \<le> maxPages" and n: "n = maxPages + 1 - (page + 1)"
    by simp_all
  have one: "page + 1 \<le> max page (maxPages + 1) \<and>
       filter isListCall (ListCall b page pageSize # cs)
         = map (\<lambda>p. ListCall b p pageSize) [page ..< page + 1]"
    if "filter isListCall cs = []" for cs
    using le that by simp
  show ?case
  proof (cases e b page t rule: pageLoop_cases)
    case finished
    with le show ?thesis by simp
  next
    case listFailed
    with one [of "[]"] show ?thesis by (metis filter.simps(1) fst_conv)
  next
    case (detailFailed d cs err)
    then have "filter isListCall cs = []"
      using itemLoop_filter_list [of e "resultsOf d" t] by simp
    from one [OF this] detailFailed(4) show ?thesis by (metis fst_conv)
  next
    case (lastPage d cs t')
    then have "filter isListCall cs = []"
      using itemLoop_filter_list [of e "resultsOf d" t] by simp
    from one [OF this] lastPage(5) show ?thesis by (metis fst_conv)
  next
    case (nextPage d cs t')
    then have cs: "filter isListCall cs = []"
      using itemLoop_filter_list [of e "resultsOf d" t] by simp
    from Suc.hyps(1) [OF n, of t'] obtain k where
      k: "page + 1 + k \<le> max (page + 1) (maxPages + 1)"
        "filter isListCall (fst (pageLoop e b (page + 1) t'))
           = map (\<lambda>p. ListCall b p pageSize) [page + 1 ..< page + 1 + k]"
      by blast
    have "[page ..< page + (k + 1)] = page # [page + 1 ..< page + 1 + k]"
      by (simp add: upt_rec)
    with k(2) cs nextPage(6)
    have "filter isListCall (fst (pageLoop e b page t))
           = map (\<lambda>p. ListCall b p pageSize) [page ..< page + (k + 1)]"
      by simp
    moreover from k(1) le have "page + (k + 1) \<le> max page (maxPages + 1)"
      by simp
    ultimately show ?thesis by blast
  qed
qed

lemma pageLoop_count:
  "snd (pageLoop e b page t) = Inr n \<Longrightarrow>
     n = t + length (filter isDetailCall (fst (pageLoop e b page t)))"
proof (induction "maxPages + 1 - page" arbitrary: page t)
  case 0
  then have "\<not> page \<le> maxPages" by simp
  then have "pageLoop e b page t = ([], Inr t)"
    by (simp add: pageLoop.simps)
  with "0.prems" show ?case by simp
next
  case (Suc m)
  then have m: "m = maxPages + 1 - (page + 1)"
    by simp
  show ?case
  proof (cases e b page t rule: pageLoop_cases)
    case finished
    with Suc.prems show ?thesis by simp
  next
    case listFailed
    with Suc.prems show ?thesis by simp
  next
    case (detailFailed d cs err)
    with Suc.prems show ?thesis by simp
  next
    case (lastPage d cs t')
    then have "t' = t + length (resultsOf d)" "length (filter isDetailCall cs) = length (resultsOf d)"
      using itemLoop_count [of e "resultsOf d" t t'] by simp_all
    with lastPage(5) Suc.prems show ?thesis by simp
  next
    case (nextPage d cs t')
    then have a: "t' = t + length (resultsOf d)"
      "length (filter isDetailCall cs) = length (resultsOf d)"
      using itemLoop_count [of e "resultsOf d" t t'] by simp_all
    from nextPage(6) Suc.prems have "snd (pageLoop e b (page + 1) t') = Inr n"
      by simp
    from Suc.hyps(1) [OF m this]
    have "n = t' + length (filter isDetailCall (fst (pageLoop e b (page + 1) t')))" .
    with a nextPage(6) show ?thesis by simp
  qed
qed

text \<open>When no page holds more items than were asked for, the detail calls of the
  loop are bounded by the page size times the number of pages left.\<close>

lemma pageLoop_ceiling:
  assumes "\<And>p d. listEndpoint e b p pageSize = Some d \<Longrightarrow> length (resultsOf d) \<le> pageSize"
  shows "length (filter isDetailCall (fst (pageLoop e b page t)))
           \<le> pageSize * (maxPages + 1 - page)"
proof (induction "maxPages + 1 - page" arbitrary: page t)
  case 0
  then have "\<not> page \<le> maxPages" by simp
  then have "pageLoop e b page t = ([], Inr t)"
    by (simp add: pageLoop.simps)
  then show ?case by simp
next
  case (Suc m)
  then have m: "m = maxPages + 1 - (page + 1)" and le: "page \<le> maxPages"
    by simp_all
  from le have step: "pageSize + pageSize * (maxPages + 1 - (page + 1))
                        = pageSize * (maxPages + 1 - page)"
    by (metis Suc.hyps(2) m mult_Suc_right)
  have items: "length (filter isDetailCall cs) \<le> pageSize"
    if "listEndpoint e b page pageSize = Some d" and "itemLoop e (resultsOf d) t = (cs, res)"
    for d cs res
  proof -
    from that(2) have "length (filter isDetailCall cs) \<le> length (resultsOf d)"
      using itemLoop_detail_calls_le [of e "resultsOf d" t] by simp
    with assms [OF that(1)] show ?thesis by simp
  qed
  show ?case
  proof (cases e b page t rule: pageLoop_cases)
    case finished
    then show ?thesis by simp
  next
    case listFailed
    then show ?thesis by simp
  next
    case (detailFailed d cs err)
    from items [OF detailFailed(2,3)] detailFailed(4) step show ?thesis by simp
  next
    case (lastPage d cs t')
    from items [OF lastPage(2,3)] lastPage(5) step show ?thesis by simp
  next
    case (nextPage d cs t')
    from Suc.hyps(1) [OF m, of t'] items [OF nextPage(2,3)] nextPage(6) step
    show ?thesis by simp
  qed
qed

text \<open>A page is asked for only after the page before it came with a next pointer and
  a non-empty result.\<close>

lemma pageLoop_early_stop:
  "ListCall b (Suc p) pageSize \<in> set (fst (pageLoop e b page t)) \<Longrightarrow> page \<le> p \<Longrightarrow>
     \<exists>d. listEndpoint e b p pageSize = Some d \<and> hasNext d \<and> resultsOf d \<noteq> []"
proof (induction "maxPages + 1 - page" arbitrary: page t)
  case 0
  then have "\<not> page \<le> maxPages" by simp
  then have "pageLoop e b page t = ([], Inr t)"
    by (simp add: pageLoop.simps)
  with "0.prems" show ?case by simp
next
  case (Suc m)
  then have m: "m = maxPages + 1 - (page + 1)"
    by simp
  have notin: "ListCall b (Suc p) pageSize \<notin> set cs"
    if "itemLoop e (resultsOf d) t = (cs, res)" for d cs res
    using itemLoop_no_list_call [of "ListCall b (Suc p) pageSize" e "resultsOf d" t] that
    by auto
  show ?case
  proof (cases e b page t rule: pageLoop_cases)
    case finished
    with Suc.prems show ?thesis by simp
  next
    case listFailed
    with Suc.prems show ?thesis by simp
  next
    case (detailFailed d cs err)
    with Suc.prems notin [OF detailFailed(3)] show ?thesis by simp
  next
    case (lastPage d cs t')
    with Suc.prems notin [OF lastPage(3)] show ?thesis by simp
  next
    case (nextPage d cs t')
    with Suc.prems notin [OF nextPage(3)]
    have inrest: "ListCall b (Suc p) pageSize \<in> set (fst (pageLoop e b (page + 1) t'))"
      by simp
    show ?thesis
    proof (cases "p = page")
      case True
      with nextPage show ?thesis by simp
    next
      case False
      with Suc.prems(2) have "page + 1 \<le> p" by simp
      from Suc.hyps(1) [OF m inrest this] show ?thesis .
    qed
  qed
qed

text \<open>The outcome of the loop does not depend on how the media fetches end.\<close>

lemma pageLoop_media_independent:
  "snd (pageLoop (e\<lparr>mediaFetch := f\<rparr>) b page t) = snd (pageLoop e b page t)"
proof (induction "maxPages + 1 - page" arbitrary: page t)
  case 0
  then have "\<not> page \<le> maxPages" by simp
  then show ?case
    by (simp add: pageLoop.simps)
next
  case (Suc m)
  then have m: "m = maxPages + 1 - (page + 1)"
    by simp
  have il: "snd (itemLoop (e\<lparr>mediaFetch := f\<rparr>) rs t) = snd (itemLoop e rs t)" for rs
    by (rule itemLoop_media_independent)
  show ?case
  proof (cases e b page t rule: pageLoop_cases)
    case finished
    then show ?thesis by (simp add: pageLoop.simps)
  next
    case listFailed
    then show ?thesis by (simp add: pageLoop.simps [of "e\<lparr>mediaFetch := f\<rparr>"])
  next
    case (detailFailed d cs err)
    with il [of "resultsOf d"] show ?thesis
      by (simp add: pageLoop.simps [of "e\<lparr>mediaFetch := f\<rparr>"] split_beta
          split: sum.splits prod.splits)
  next
    case (lastPage d cs t')
    with il [of "resultsOf d"] show ?thesis
      by (auto simp add: pageLoop.simps [of "e\<lparr>mediaFetch := f\<rparr>" b page] split_beta
          split: sum.splits prod.splits)
  next
    case (nextPage d cs t')
    with il [of "resultsOf d"] Suc.hyps(1) [OF m, of t'] show ?thesis
      by (auto simp add: pageLoop.simps [of "e\<lparr>mediaFetch := f\<rparr>" b page] split_beta
          split: sum.splits prod.splits)
  qed
qed

text \<open>The loop ends in an error exactly when one of the list or detail calls it issued
  failed.\<close>

lemma pageLoop_aborts_iff:
  "isl (snd (pageLoop e b page t)) \<longleftrightarrow>
     (\<exists>p. ListCall b p pageSize \<in> set (fst (pageLoop e b page t)) \<and>
          listEndpoint e b p pageSize = None) \<or>
     (\<exists>i. DetailCall i \<in> set (fst (pageLoop e b page t)) \<and> detailEndpoint e i = None)"
proof (induction "maxPages + 1 - page" arbitrary: page t)
  case 0
  then have "\<not> page \<le> maxPages" by simp
  then have "pageLoop e b page t = ([], Inr t)"
    by (simp add: pageLoop.simps)
  then show ?case by simp
next
  case (Suc m)
  then have m: "m = maxPages + 1 - (page + 1)"
    by simp
  have il1: "isl res \<longleftrightarrow> (\<exists>i. DetailCall i \<in> set cs \<and> detailEndpoint e i = None)"
    if "itemLoop e (resultsOf d) t = (cs, res)" for d cs res
    using itemLoop_aborts_iff [of e "resultsOf d" t] that by simp
  have il2: "ListCall q p n \<notin> set cs"
    if "itemLoop e (resultsOf d) t = (cs, res)" for d cs res q p n
    using itemLoop_no_list_call [of "ListCall q p n" e "resultsOf d" t] that by auto
  note il = il1 il2
  show ?case
  proof (cases e b page t rule: pageLoop_cases)
    case finished
    then show ?thesis by simp
  next
    case listFailed
    then show ?thesis by auto
  next
    case (detailFailed d cs err)
    with il [OF detailFailed(3)] show ?thesis by auto
  next
    case (lastPage d cs t')
    with il [OF lastPage(3)] show ?thesis by auto
  next
    case (nextPage d cs t')
    with il [OF nextPage(3)] Suc.hyps(1) [OF m, of t'] show ?thesis by auto
  qed
qed

text \<open>The same for the page loop: after a list or detail call that failed, no further
  item and no further page is fetched.\<close>

lemma pageLoop_ok_none_failed:
  "\<not> isl (snd (pageLoop e b page t)) \<Longrightarrow> c \<in> set (fst (pageLoop e b page t)) \<Longrightarrow>
     \<not> failedCall e c"
proof (induction "maxPages + 1 - page" arbitrary: page t)
  case 0
  then have "\<not> page \<le> maxPages" by simp
  then have "pageLoop e b page t = ([], Inr t)"
    by (simp add: pageLoop.simps)
  with 0 show ?case by simp
next
  case (Suc m)
  then have m: "m = maxPages + 1 - (page + 1)"
    by simp
  have il: "x \<in> set cs \<Longrightarrow> \<not> failedCall e x"
    if "itemLoop e (resultsOf d) t = (cs, Inr t')" for d cs t' x
    using itemLoop_ok_none_failed [of e "resultsOf d" t x] that by simp
  show ?case
  proof (cases e b page t rule: pageLoop_cases)
    case finished
    with Suc.prems show ?thesis by simp
  next
    case listFailed
    with Suc.prems show ?thesis by simp
  next
    case (detailFailed d cs err)
    with Suc.prems show ?thesis by simp
  next
    case (lastPage d cs t')
    with Suc.prems il [OF lastPage(3)] show ?thesis by auto
  next
    case (nextPage d cs t')
    with Suc.prems il [OF nextPage(3)] Suc.hyps(1) [OF m, of t'] show ?thesis by auto
  qed
qed

lemma pageLoop_failed_last:
  "isl (snd (pageLoop e b page t)) \<Longrightarrow>
     \<exists>pre c. fst (pageLoop e b page t) = pre @ [c] \<and> failedCall e c \<and>
             (\<forall>x\<in>set pre. \<not> failedCall e x)"
proof (induction "maxPages + 1 - page" arbitrary: page t)
  case 0
  then have "\<not> page \<le> maxPages" by simp
  then have "pageLoop e b page t = ([], Inr t)"
    by (simp add: pageLoop.simps)
  with 0 show ?case by simp
next
  case (Suc m)
  then have m: "m = maxPages + 1 - (page + 1)"
    by simp
  let ?l = "ListCall b page pageSize"
  show ?case
  proof (cases e b page t rule: pageLoop_cases)
    case finished
    with Suc.prems show ?thesis by simp
  next
    case listFailed
    then have "fst (pageLoop e b page t) = [] @ [?l]" and "failedCall e ?l"
      by simp_all
    then show ?thesis by fastforce
  next
    case (detailFailed d cs err)
    then have "isl (snd (itemLoop e (resultsOf d) t))" by simp
    from itemLoop_failed_last [OF this] detailFailed(3) obtain pre c
      where pre: "cs = pre @ [c]" "failedCall e c" "\<forall>x\<in>set pre. \<not> failedCall e x"
      by auto
    from detailFailed(4) pre(1) have "fst (pageLoop e b page t) = (?l # pre) @ [c]"
      by simp
    moreover from detailFailed(2) pre(3) have "\<forall>x\<in>set (?l # pre). \<not> failedCall e x"
      by simp
    ultimately show ?thesis using pre(2) by blast
  next
    case (lastPage d cs t')
    with Suc.prems show ?thesis by simp
  next
    case (nextPage d cs t')
    with Suc.prems have "isl (snd (pageLoop e b (page + 1) t'))" by simp
    from Suc.hyps(1) [OF m this] obtain pre c
      where pre: "fst (pageLoop e b (page + 1) t') = pre @ [c]" "failedCall e c"
        "\<forall>x\<in>set pre. \<not> failedCall e x"
      by blast
    have ok: "\<forall>x\<in>set cs. \<not> failedCall e x"
      using itemLoop_ok_none_failed [of e "resultsOf d" t] nextPage(3) by simp
    from nextPage(6) pre(1) have "fst (pageLoop e b page t) = (?l # cs @ pre) @ [c]"
      by simp
    moreover from nextPage(2) pre(3) ok have "\<forall>x\<in>set (?l # cs @ pre). \<not> failedCall e x"
      by auto
    ultimately show ?thesis using pre(2) by blast
  qed
qed

section \<open>The offline bundle\<close>

lemma currentQuerySnapshot_offline_fields:
  "currentQuerySnapshot (st\<lparr>offlineDownloadError := x\<rparr>) = currentQuerySnapshot st"
  "currentQuerySnapshot (st\<lparr>offlineDownloading := y\<rparr>) = currentQuerySnapshot st"
  "currentQuerySnapshot (st\<lparr>offlineArea := z\<rparr>) = currentQuerySnapshot st"
  by (simp_all add: currentQuerySnapshot_def selectedTypeId_def split del: if_split cong: if_cong)

text \<open>The download of a client that is offline is refused before any request.\<close>

lemma downloadForOffline_offline:
  "\<not> navigatorOnLine e \<Longrightarrow>
     downloadForOffline e st
       = ([], st\<lparr>offlineDownloadError := Some ''explore.offline.mustBeOnline''\<rparr>)"
  by (simp add: downloadForOffline_def)

text \<open>The download of a client that is online, in terms of the page loop.\<close>

lemma downloadForOffline_online:
  assumes "navigatorOnLine e"
  shows "fst (downloadForOffline e st) = fst (pageLoop e (currentQuerySnapshot st) 1 0)"
    and "snd (downloadForOffline e st) =
      (case snd (pageLoop e (currentQuerySnapshot st) 1 0) of
         Inr totalItems \<Rightarrow>
           st\<lparr>offlineDownloadError := None,
              offlineArea := Some (Manifest (currentQuerySnapshot st) (clock e) totalItems),
              offlineDownloading := False\<rparr>
       | Inl err \<Rightarrow>
           st\<lparr>offlineDownloadError := Some ''explore.offline.downloadError'',
              offlineDownloading := False\<rparr>)"
  using assms
  by (simp_all add: downloadForOffline_def Let_def split_beta currentQuerySnapshot_offline_fields
      split: sum.splits)

lemma pageLoop_single_page:
  assumes "page \<le> maxPages" and "listEndpoint e b page pageSize = Some d"
    and "\<not> hasNext d" and "snd (itemLoop e (resultsOf d) t) = Inr n"
  shows "snd (pageLoop e b page t) = Inr n"
proof (cases e b page t rule: pageLoop_cases)
  case (lastPage d' cs t')
  with assms show ?thesis by simp
qed (use assms in simp_all)

text \<open>
  Claim C6, as stated, fails on the ceiling: the builder never cuts a page down to the
  page size it asked for. Against an endpoint that answers with the bare array of its
  501 items (a shape of answer that the builder provides for), one page is asked for,
  all 501 items are fetched and the manifest records 501 items.
\<close>

theorem unpaged_bundle_exceeds_500:
  "navigatorOnLine unpagedEnv \<and>
   listEndpoint unpagedEnv (currentQuerySnapshot exploring) 1 100
     = Some (BareArray (map showNat [0 ..< 501])) \<and>
   offlineArea (snd (downloadForOffline unpagedEnv exploring))
     = Some (Manifest (currentQuerySnapshot exploring) 7 501)"
proof -
  let ?q = "currentQuerySnapshot exploring"
  define rs where "rs = map showNat [0 ..< 501]"
  have len: "length rs = 501"
    unfolding rs_def by (simp only: length_map length_upt diff_zero)
  have on: "navigatorOnLine unpagedEnv"
    by (simp add: unpagedEnv_def smallEnv_def)
  have le: "listEndpoint unpagedEnv ?q 1 pageSize = Some (BareArray rs)"
    unfolding rs_def by (simp add: unpagedEnv_def unpaged_def)
  have "detailEndpoint unpagedEnv i \<noteq> None" for i
    by (simp add: unpagedEnv_def smallEnv_def everyDetail_def)
  then have "\<not> isl (snd (itemLoop unpagedEnv rs 0))"
    unfolding itemLoop_aborts_iff by blast
  then have "snd (itemLoop unpagedEnv rs 0) = Inr (0 + length rs)"
    by (rule itemLoop_total)
  then have il: "snd (itemLoop unpagedEnv (resultsOf (BareArray rs)) 0) = Inr 501"
    unfolding len by simp
  have one: "1 \<le> maxPages"
    by (simp add: maxPages_def)
  have "\<not> hasNext (BareArray rs)"
    by simp
  with one le have "snd (pageLoop unpagedEnv ?q 1 0) = Inr 501"
    using il by (rule pageLoop_single_page)
  then have "offlineArea (snd (downloadForOffline unpagedEnv exploring))
     = Some (Manifest ?q (clock unpagedEnv) 501)"
    by (simp add: downloadForOffline_online(2) [OF on])
  then have "offlineArea (snd (downloadForOffline unpagedEnv exploring)) = Some (Manifest ?q 7 501)"
    by (simp add: unpagedEnv_def smallEnv_def)
  moreover from le have "listEndpoint unpagedEnv ?q 1 100 = Some (BareArray (map showNat [0 ..< 501]))"
    unfolding rs_def pageSize_def .
  ultimately show ?thesis using on by blast
qed

text \<open>The walk of a client that is online.\<close>

lemma bundle_walk_online:
  assumes "navigatorOnLine e" and "downloadForOffline e st = (cs, st')"
  shows "(\<exists>k\<le>5. filter isListCall cs
            = map (\<lambda>p. ListCall (currentQuerySnapshot st) p 100) [1 ..< 1 + k]) \<and>
         ((\<forall>p d. listEndpoint e (currentQuerySnapshot st) p 100 = Some d
              \<longrightarrow> length (resultsOf d) \<le> 100)
            \<longrightarrow> length (filter isDetailCall cs) \<le> 500) \<and>
         (\<forall>p\<ge>1. ListCall (currentQuerySnapshot st) (Suc p) 100 \<in> set cs \<longrightarrow>
            (\<exists>d. listEndpoint e (currentQuerySnapshot st) p 100 = Some d \<and>
                 hasNext d \<and> resultsOf d \<noteq> [])) \<and>
         (\<forall>f. snd (downloadForOffline (e\<lparr>mediaFetch := f\<rparr>) st) = st') \<and>
         (offlineDownloadError st' = None \<longrightarrow>
            offlineDownloading st' = False \<and>
            offlineArea st'
              = Some (Manifest (currentQuerySnapshot st) (clock e)
                        (length (filter isDetailCall cs))))"
proof -
  let ?q = "currentQuerySnapshot st"
  have cs: "cs = fst (pageLoop e ?q 1 0)"
    using assms downloadForOffline_online(1) [OF assms(1), of st] by simp
  have st': "st' = snd (downloadForOffline e st)"
    using assms(2) by simp
  from pageLoop_list_calls [of 1 e ?q 0] obtain k where
    k: "1 + k \<le> max 1 (maxPages + 1)"
       "filter isListCall cs = map (\<lambda>p. ListCall ?q p pageSize) [1 ..< 1 + k]"
    unfolding cs by blast
  from k(1) have "k \<le> 5" by (simp add: maxPages_def)
  with k(2) have a: "\<exists>k\<le>5. filter isListCall cs = map (\<lambda>p. ListCall ?q p 100) [1 ..< 1 + k]"
    unfolding pageSize_def by blast
  have b: "length (filter isDetailCall cs) \<le> 500"
    if "\<forall>p d. listEndpoint e ?q p 100 = Some d \<longrightarrow> length (resultsOf d) \<le> 100"
  proof -
    have "length (filter isDetailCall (fst (pageLoop e ?q 1 0))) \<le> pageSize * (maxPages + 1 - 1)"
      by (rule pageLoop_ceiling) (use that in \<open>simp add: pageSize_def\<close>)
    then show ?thesis
      unfolding cs by (simp add: pageSize_def maxPages_def)
  qed
  have c: "\<forall>p\<ge>1. ListCall ?q (Suc p) 100 \<in> set cs \<longrightarrow>
            (\<exists>d. listEndpoint e ?q p 100 = Some d \<and> hasNext d \<and> resultsOf d \<noteq> [])"
    using pageLoop_early_stop [of ?q _ e 1 0] unfolding cs pageSize_def by blast
  have d: "\<forall>f. snd (downloadForOffline (e\<lparr>mediaFetch := f\<rparr>) st) = st'"
    unfolding st'
    using assms(1)
    by (simp add: downloadForOffline_online(2) pageLoop_media_independent split: sum.splits)
  have e: "offlineDownloading st' = False \<and>
           offlineArea st' = Some (Manifest ?q (clock e) (length (filter isDetailCall cs)))"
    if "offlineDownloadError st' = None"
  proof (cases "snd (pageLoop e ?q 1 0)")
    case (Inl err)
    with that assms(1) show ?thesis
      unfolding st' by (simp add: downloadForOffline_online(2))
  next
    case (Inr n)
    from pageLoop_count [OF Inr] have "n = length (filter isDetailCall cs)"
      unfolding cs by simp
    with Inr assms(1) show ?thesis
      unfolding st' by (simp add: downloadForOffline_online(2))
  qed
  from a b c d e show ?thesis by blast
qed

text \<open>
  Claim C6, amended. For every query, the builder asks the list endpoint for the pages
  1, 2, ... in turn, each with page size 100, and for at most 5 pages (for none when it
  refuses to start because the client is offline); whenever no page holds more than the
  100 items asked for, at most 500 items are fetched, whatever the size of the true
  result set (the builder itself does not cut a page down). It asks for a page only if
  the page before came with a next pointer and a non-empty result, so it stops early
  otherwise. The outcome does not depend on how the media fetches end: their
  failures are swallowed. On completion the manifest is written over whatever was stored,
  with the current query, the current time and an item count equal to the number of
  items fetched.
\<close>

theorem offline_bundle_walk:
  assumes "downloadForOffline e st = (cs, st')"
  shows "(\<exists>k\<le>5. filter isListCall cs
            = map (\<lambda>p. ListCall (currentQuerySnapshot st) p 100) [1 ..< 1 + k]) \<and>
         ((\<forall>p d. listEndpoint e (currentQuerySnapshot st) p 100 = Some d
              \<longrightarrow> length (resultsOf d) \<le> 100)
            \<longrightarrow> length (filter isDetailCall cs) \<le> 500) \<and>
         (\<forall>p\<ge>1. ListCall (currentQuerySnapshot st) (Suc p) 100 \<in> set cs \<longrightarrow>
            (\<exists>d. listEndpoint e (currentQuerySnapshot st) p 100 = Some d \<and>
                 hasNext d \<and> resultsOf d \<noteq> [])) \<and>
         (\<forall>f. snd (downloadForOffline (e\<lparr>mediaFetch := f\<rparr>) st) = st') \<and>
         (offlineDownloadError st' = None \<longrightarrow>
            offlineDownloading st' = False \<and>
            offlineArea st'
              = Some (Manifest (currentQuerySnapshot st) (clock e)
                        (length (filter isDetailCall cs))))"
proof (cases "navigatorOnLine e")
  case True
  then show ?thesis using assms by (rule bundle_walk_online)
next
  case False
  with assms have "cs = []"
    and "st' = st\<lparr>offlineDownloadError := Some ''explore.offline.mustBeOnline''\<rparr>"
    by (simp_all add: downloadForOffline_offline)
  moreover have "filter isListCall []
      = map (\<lambda>p. ListCall (currentQuerySnapshot st) p 100) [1 ..< 1 + 0]"
    by simp
  moreover have "snd (downloadForOffline (e\<lparr>mediaFetch := f\<rparr>) st)
      = st\<lparr>offlineDownloadError := Some ''explore.offline.mustBeOnline''\<rparr>" for f
    using False by (simp add: downloadForOffline_offline)
  ultimately show ?thesis by auto
qed

lemma currentQuerySnapshot_exploring:
  "currentQuerySnapshot exploring = [(''search'', JStr ''church''), (''ordering'', JStr ''-created_at'')]"
  "currentQuerySnapshot exploringAgain = currentQuerySnapshot exploring"
  by (simp_all add: currentQuerySnapshot_def selectedTypeId_def trim_def isWhitespace_def
      exploring_def exploringAgain_def)

lemma smallEnv_pageLoop:
  "pageLoop smallEnv (currentQuerySnapshot exploring) 1 0 =
     ([ListCall (currentQuerySnapshot exploring) 1 100,
       DetailCall ''1'', MediaCall ''/media/a.jpg'' False,
       DetailCall ''2'', MediaCall ''/media/a.jpg'' False,
       ListCall (currentQuerySnapshot exploring) 2 100,
       DetailCall ''3'', MediaCall ''/media/a.jpg'' False], Inr 3)"
  by (simp add: pageLoop.simps smallEnv_def twoPages_def everyDetail_def mediaDown_def
      oneImage_def mediaUrls_def maxPages_def pageSize_def eval_nat_numeral)

lemma smallEnv_download:
  "downloadForOffline smallEnv exploringAgain =
     ([ListCall (currentQuerySnapshot exploring) 1 100,
       DetailCall ''1'', MediaCall ''/media/a.jpg'' False,
       DetailCall ''2'', MediaCall ''/media/a.jpg'' False,
       ListCall (currentQuerySnapshot exploring) 2 100,
       DetailCall ''3'', MediaCall ''/media/a.jpg'' False],
      exploring\<lparr>offlineArea := Some (Manifest (currentQuerySnapshot exploring) 7 3)\<rparr>)"
proof -
  have on: "navigatorOnLine smallEnv"
    by (simp add: smallEnv_def)
  have "exploringAgain\<lparr>offlineDownloadError := None,
          offlineArea := Some (Manifest (currentQuerySnapshot exploring) (clock smallEnv) 3),
          offlineDownloading := False\<rparr>
        = exploring\<lparr>offlineArea := Some (Manifest (currentQuerySnapshot exploring) 7 3)\<rparr>"
    by (simp add: exploringAgain_def exploring_def smallEnv_def)
  then show ?thesis
    by (simp only: prod_eq_iff fst_conv snd_conv downloadForOffline_online [OF on]
        currentQuerySnapshot_exploring(2) smallEnv_pageLoop sum.case simp_thms)
qed

theorem offline_bundle_walk_witness:
  "navigatorOnLine smallEnv \<and>
   offlineArea exploringAgain = Some earlierManifest \<and>
   length (filter isDetailCall (fst (downloadForOffline smallEnv exploringAgain))) = 3 \<and>
   ListCall (currentQuerySnapshot exploringAgain) (Suc 1) 100
     \<in> set (fst (downloadForOffline smallEnv exploringAgain)) \<and>
   length (filter isDetailCall (fst (downloadForOffline smallEnv exploringAgain))) \<le> 500 \<and>
   offlineDownloadError (snd (downloadForOffline smallEnv exploringAgain)) = None \<and>
   offlineArea (snd (downloadForOffline smallEnv exploringAgain))
     = Some (Manifest (currentQuerySnapshot exploringAgain) 7 3)"
proof -
  have on: "navigatorOnLine smallEnv"
    by (simp add: smallEnv_def)
  have sizes: "\<forall>p d. listEndpoint smallEnv (currentQuerySnapshot exploringAgain) p 100 = Some d
        \<longrightarrow> length (resultsOf d) \<le> 100"
    by (auto simp add: smallEnv_def twoPages_def split: if_splits)
  have before: "offlineArea exploringAgain = Some earlierManifest"
    by (simp add: exploringAgain_def)
  note q = currentQuerySnapshot_exploring(2)
  have ok: "offlineDownloadError (snd (downloadForOffline smallEnv exploringAgain)) = None"
    unfolding smallEnv_download by (simp add: exploring_def)
  have n: "length (filter isDetailCall (fst (downloadForOffline smallEnv exploringAgain))) = 3"
    "ListCall (currentQuerySnapshot exploringAgain) (Suc 1) 100
       \<in> set (fst (downloadForOffline smallEnv exploringAgain))"
    unfolding smallEnv_download q by simp_all
  from offline_bundle_walk [where e = smallEnv and st = exploringAgain, OF surjective_pairing] ok n(1)
  have "offlineArea (snd (downloadForOffline smallEnv exploringAgain))
     = Some (Manifest (currentQuerySnapshot exploringAgain) (clock smallEnv) 3)"
    by simp
  then have m: "offlineArea (snd (downloadForOffline smallEnv exploringAgain))
     = Some (Manifest (currentQuerySnapshot exploringAgain) 7 3)"
    by (simp add: smallEnv_def)
  from offline_bundle_walk [where e = smallEnv and st = exploringAgain, OF surjective_pairing] sizes
  have c: "length (filter isDetailCall (fst (downloadForOffline smallEnv exploringAgain))) \<le> 500"
    by blast
  from on before n c ok m show ?thesis by blast
qed

text \<open>The outcome of a download by a client that is online.\<close>

lemma failed_fetch_aborts_online:
  assumes "navigatorOnLine e" and "downloadForOffline e st = (cs, st')"
  shows "(((\<exists>p. ListCall (currentQuerySnapshot st) p 100 \<in> set cs \<and>
               listEndpoint e (currentQuerySnapshot st) p 100 = None) \<or>
           (\<exists>i. DetailCall i \<in> set cs \<and> detailEndpoint e i = None))
          \<longleftrightarrow> offlineDownloadError st' = Some ''explore.offline.downloadError'') \<and>
         (offlineDownloadError st' = Some ''explore.offline.downloadError'' \<longrightarrow>
            offlineArea st' = offlineArea st \<and> offlineDownloading st' = False \<and>
            cs \<noteq> [] \<and> failedCall e (last cs) \<and> (\<forall>c\<in>set (butlast cs). \<not> failedCall e c)) \<and>
         (offlineDownloadError st' \<noteq> Some ''explore.offline.downloadError'' \<longrightarrow>
            (\<forall>c\<in>set cs. \<not> failedCall e c))"
proof -
  let ?q = "currentQuerySnapshot st"
  have cs: "cs = fst (pageLoop e ?q 1 0)"
    using assms downloadForOffline_online(1) [OF assms(1), of st] by simp
  have st': "st' = snd (downloadForOffline e st)"
    using assms(2) by simp
  have failed: "isl (snd (pageLoop e ?q 1 0)) \<longleftrightarrow>
     (\<exists>p. ListCall ?q p 100 \<in> set cs \<and> listEndpoint e ?q p 100 = None) \<or>
     (\<exists>i. DetailCall i \<in> set cs \<and> detailEndpoint e i = None)"
    using pageLoop_aborts_iff [of e ?q 1 0] unfolding cs pageSize_def .
  show ?thesis
  proof (cases "snd (pageLoop e ?q 1 0)")
    case (Inl err)
    then have "isl (snd (pageLoop e ?q 1 0))" by simp
    from pageLoop_failed_last [OF this] obtain pre c
      where "cs = pre @ [c]" "failedCall e c" "\<forall>x\<in>set pre. \<not> failedCall e x"
      unfolding cs by blast
    then have "cs \<noteq> [] \<and> failedCall e (last cs) \<and> (\<forall>c\<in>set (butlast cs). \<not> failedCall e c)"
      by simp
    with Inl failed assms(1) show ?thesis
      unfolding st' by (simp add: downloadForOffline_online(2))
  next
    case (Inr n)
    then have "\<not> isl (snd (pageLoop e ?q 1 0))" by simp
    then have "\<forall>c\<in>set cs. \<not> failedCall e c"
      unfolding cs using pageLoop_ok_none_failed by blast
    with Inr failed assms(1) show ?thesis
      unfolding st' by (simp add: downloadForOffline_online(2))
  qed
qed

text \<open>
  Claim C9. The bundle operation ends with the user-visible
  download error exactly when one of the list-page or item-detail fetches it issued
  failed. It then aborts: the call that failed is the last call the operation issued and
  no call before it failed, so no further item, media file or page is fetched after the
  failure; and no manifest is written: the item stored under the manifest key is what it
  was before, and the downloading flag is cleared. An operation that does not end with
  the download error issued no list or detail call that failed.
\<close>

theorem failed_fetch_aborts_bundle:
  assumes "downloadForOffline e st = (cs, st')"
  shows "(((\<exists>p. ListCall (currentQuerySnapshot st) p 100 \<in> set cs \<and>
               listEndpoint e (currentQuerySnapshot st) p 100 = None) \<or>
           (\<exists>i. DetailCall i \<in> set cs \<and> detailEndpoint e i = None))
          \<longleftrightarrow> offlineDownloadError st' = Some ''explore.offline.downloadError'') \<and>
         (offlineDownloadError st' = Some ''explore.offline.downloadError'' \<longrightarrow>
            offlineArea st' = offlineArea st \<and> offlineDownloading st' = False \<and>
            cs \<noteq> [] \<and> failedCall e (last cs) \<and> (\<forall>c\<in>set (butlast cs). \<not> failedCall e c)) \<and>
         (offlineDownloadError st' \<noteq> Some ''explore.offline.downloadError'' \<longrightarrow>
            (\<forall>c\<in>set cs. \<not> failedCall e c))"
proof (cases "navigatorOnLine e")
  case True
  then show ?thesis using assms by (rule failed_fetch_aborts_online)
next
  case False
  with assms have "cs = []"
    and "st' = st\<lparr>offlineDownloadError := Some ''explore.offline.mustBeOnline''\<rparr>"
    by (simp_all add: downloadForOffline_offline)
  then show ?thesis by simp
qed

lemma failingEnv_pageLoop:
  "pageLoop failingEnv (currentQuerySnapshot exploring) 1 0 =
     ([ListCall (currentQuerySnapshot exploring) 1 100, DetailCall ''1''],
      Inl (DetailFetchFailed ''1''))"
  by (simp add: pageLoop.simps failingEnv_def smallEnv_def twoPages_def detailOf1Fails_def
      mediaDown_def oneImage_def mediaUrls_def maxPages_def pageSize_def eval_nat_numeral)

theorem failed_fetch_aborts_bundle_witness:
  "navigatorOnLine failingEnv \<and>
   fst (downloadForOffline failingEnv exploringAgain) =
     [ListCall [(''search'', JStr ''church''), (''ordering'', JStr ''-created_at'')] 1 100,
      DetailCall ''1''] \<and>
   detailEndpoint failingEnv ''1'' = None \<and>
   listEndpoint failingEnv [(''search'', JStr ''church''), (''ordering'', JStr ''-created_at'')] 1 100
     = Some (Envelope (Some [''1'', ''2'']) (Some ''?page=2'')) \<and>
   failedCall failingEnv (last (fst (downloadForOffline failingEnv exploringAgain))) \<and>
   offlineDownloadError (snd (downloadForOffline failingEnv exploringAgain))
     = Some ''explore.offline.downloadError'' \<and>
   offlineDownloading (snd (downloadForOffline failingEnv exploringAgain)) = False \<and>
   offlineArea (snd (downloadForOffline failingEnv exploringAgain)) = Some earlierManifest"
proof -
  let ?q = "[(''search'', JStr ''church''), (''ordering'', JStr ''-created_at'')]"
  have on: "navigatorOnLine failingEnv"
    by (simp add: failingEnv_def smallEnv_def)
  have calls: "fst (downloadForOffline failingEnv exploringAgain) =
      [ListCall ?q 1 100, DetailCall ''1'']"
    by (simp only: downloadForOffline_online(1) [OF on] currentQuerySnapshot_exploring(2)
        failingEnv_pageLoop fst_conv) (simp add: currentQuerySnapshot_exploring(1))
  have none: "detailEndpoint failingEnv ''1'' = None"
    by (simp add: failingEnv_def detailOf1Fails_def)
  have page1: "listEndpoint failingEnv ?q 1 100
     = Some (Envelope (Some [''1'', ''2'']) (Some ''?page=2''))"
    by (simp add: failingEnv_def smallEnv_def twoPages_def)
  have before: "offlineArea exploringAgain = Some earlierManifest"
    by (simp add: exploringAgain_def)
  have q: "currentQuerySnapshot exploringAgain = ?q"
    by (simp only: currentQuerySnapshot_exploring)
  have call: "DetailCall ''1'' \<in> set (fst (downloadForOffline failingEnv exploringAgain))"
    by (simp add: calls)
  from failed_fetch_aborts_bundle [where e = failingEnv and st = exploringAgain, OF surjective_pairing]
    call none before
  have "offlineDownloadError (snd (downloadForOffline failingEnv exploringAgain))
     = Some ''explore.offline.downloadError'' \<and>
   offlineDownloading (snd (downloadForOffline failingEnv exploringAgain)) = False \<and>
   failedCall failingEnv (last (fst (downloadForOffline failingEnv exploringAgain))) \<and>
   offlineArea (snd (downloadForOffline failingEnv exploringAgain)) = Some earlierManifest"
    by auto
  with on calls none page1 show ?thesis by blast
qed

section \<open>The JSON text determines the query\<close>

lemma of_char_hexDigit:
  "a < 16 \<Longrightarrow> (of_char (hexDigit a) :: nat) = (if a < 10 then a + 48 else a + 87)"
  by (simp add: hexDigit_def)

lemma hexDigit_inj:
  assumes "a < 16" and "b < 16" and "hexDigit a = hexDigit b"
  shows "a = b"
proof -
  from assms(3) have "(of_char (hexDigit a) :: nat) = of_char (hexDigit b)" by simp
  with assms(1,2) show ?thesis
    by (simp add: of_char_hexDigit split: if_splits)
qed

lemma hex_pair_inj:
  assumes "(of_char c :: nat) < 32" and "(of_char c' :: nat) < 32"
    and "hexDigit (of_char c div 16) = hexDigit (of_char c' div 16)"
    and "hexDigit (of_char c mod 16) = hexDigit (of_char c' mod 16)"
  shows "c = c'"
proof -
  have "(of_char c :: nat) div 16 = of_char c' div 16"
    using assms(1,2) by (intro hexDigit_inj [OF _ _ assms(3)]) simp_all
  moreover have "(of_char c :: nat) mod 16 = of_char c' mod 16"
    by (intro hexDigit_inj [OF _ _ assms(4)]) simp_all
  ultimately have "(of_char c :: nat) = of_char c'"
    by (metis div_mult_mod_eq)
  then show ?thesis by simp
qed

text \<open>The escapes form a prefix code, and none of them begins with a quotation mark.\<close>

lemma escapeChar_inj_app:
  "escapeChar c @ r = escapeChar c' @ r' \<Longrightarrow> c = c' \<and> r = r'"
  by (auto simp add: escapeChar_def split: if_splits dest: hex_pair_inj)

lemma escapeChar_not_quote: "escapeChar c @ r \<noteq> CHR 0x22 # r'"
  by (auto simp add: escapeChar_def split: if_splits)

lemma escaped_body_inj:
  "concat (map escapeChar s) @ CHR 0x22 # r = concat (map escapeChar s') @ CHR 0x22 # r'
     \<Longrightarrow> s = s' \<and> r = r'"
proof (induction s arbitrary: s')
  case Nil
  show ?case
  proof (cases s')
    case Nil
    with Nil.prems show ?thesis by simp
  next
    case (Cons c' t')
    with Nil.prems have "escapeChar c' @ (concat (map escapeChar t') @ CHR 0x22 # r') = CHR 0x22 # r"
      by simp
    then show ?thesis using escapeChar_not_quote by blast
  qed
next
  case (Cons c t)
  show ?case
  proof (cases s')
    case Nil
    with Cons.prems have "escapeChar c @ (concat (map escapeChar t) @ CHR 0x22 # r) = CHR 0x22 # r'"
      by simp
    then show ?thesis using escapeChar_not_quote by blast
  next
    case (Cons c' t')
    with Cons.prems
    have "escapeChar c @ (concat (map escapeChar t) @ CHR 0x22 # r)
            = escapeChar c' @ (concat (map escapeChar t') @ CHR 0x22 # r')"
      by simp
    then have "c = c'"
      and "concat (map escapeChar t) @ CHR 0x22 # r = concat (map escapeChar t') @ CHR 0x22 # r'"
      using escapeChar_inj_app by blast+
    with Cons.IH [of t'] Cons show ?thesis by simp
  qed
qed

lemma quote_inj_app: "quote s @ r = quote s' @ r' \<Longrightarrow> s = s' \<and> r = r'"
  using escaped_body_inj [of s r s' r'] by (simp add: quote_def)

lemma quote_Cons: "quote s = CHR 0x22 # concat (map escapeChar s) @ [CHR 0x22]"
  by (simp add: quote_def)

lemma stringifyValue_inj_app:
  "stringifyValue v @ r = stringifyValue v' @ r' \<Longrightarrow> v = v' \<and> r = r'"
proof (cases v; cases v')
  fix s s'
  assume "v = JStr s" "v' = JStr s'" "stringifyValue v @ r = stringifyValue v' @ r'"
  then show ?thesis using quote_inj_app [of s r s' r'] by simp
qed (auto simp add: quote_Cons split: if_splits)

lemma member_text_inj_app:
  assumes "member_text kv @ r = member_text kv' @ r'"
  shows "kv = kv' \<and> r = r'"
proof -
  from assms
  have "quote (fst kv) @ ('':'' @ stringifyValue (snd kv) @ r)
          = quote (fst kv') @ ('':'' @ stringifyValue (snd kv') @ r')"
    by (simp add: member_text_def)
  then have k: "fst kv = fst kv'"
    and "'':'' @ stringifyValue (snd kv) @ r = '':'' @ stringifyValue (snd kv') @ r'"
    using quote_inj_app by blast+
  then have "stringifyValue (snd kv) @ r = stringifyValue (snd kv') @ r'"
    by simp
  then have "snd kv = snd kv'" and "r = r'"
    using stringifyValue_inj_app by blast+
  with k show ?thesis by (simp add: prod_eq_iff)
qed

lemma member_text_starts: "\<exists>t. member_text kv = CHR 0x22 # t"
  by (simp add: member_text_def quote_Cons)

lemma members_Cons:
  "members (kv # kvs) = member_text kv @ (if kvs = [] then [] else '','' @ members kvs)"
  by (cases kvs) simp_all

lemma members_inj_app:
  "members ps @ CHR ''}'' # r = members ps' @ CHR ''}'' # r' \<Longrightarrow> ps = ps' \<and> r = r'"
proof (induction ps arbitrary: ps')
  case Nil
  show ?case
  proof (cases ps')
    case Nil
    with Nil.prems show ?thesis by simp
  next
    case (Cons kv' t')
    obtain u where "member_text kv' = CHR 0x22 # u"
      using member_text_starts by blast
    with Nil.prems Cons show ?thesis by (simp add: members_Cons)
  qed
next
  case (Cons kv t)
  show ?case
  proof (cases ps')
    case Nil
    obtain u where "member_text kv = CHR 0x22 # u"
      using member_text_starts by blast
    with Cons.prems Nil show ?thesis by (simp add: members_Cons)
  next
    case (Cons kv' t')
    let ?tail = "\<lambda>kvs x. (if kvs = [] then [] else '','' @ members kvs) @ CHR ''}'' # x"
    from Cons.prems Cons
    have "member_text kv @ ?tail t r = member_text kv' @ ?tail t' r'"
      by (simp add: members_Cons)
    then have kv: "kv = kv'" and tl: "?tail t r = ?tail t' r'"
      using member_text_inj_app by blast+
    have "t = t' \<and> r = r'"
    proof (cases "t = []"; cases "t' = []")
      assume "t \<noteq> []" "t' \<noteq> []"
      with tl have "members t @ CHR ''}'' # r = members t' @ CHR ''}'' # r'"
        by simp
      then show ?thesis by (rule Cons.IH)
    qed (use tl in auto)
    with kv Cons show ?thesis by simp
  qed
qed

lemma stringify_inj: "stringify p = stringify p' \<longleftrightarrow> p = p'"
  using members_inj_app [of p "[]" p' "[]"] by (auto simp add: stringify_def)

section \<open>The query signature\<close>

lemma assign_fresh: "k \<notin> set (map fst p) \<Longrightarrow> assign p k v = p @ [(k, v)]"
  by (induction p) auto

text \<open>One conditional assignment of \<^verbatim>\<open>currentQuerySnapshot\<close>: the keys stay in the
  order of the assignments and no string value is empty.\<close>

lemma subseq_set: "subseq xs ys \<Longrightarrow> set xs \<subseteq> set ys"
proof
  fix x
  assume "subseq xs ys" and "x \<in> set xs"
  then obtain y where "y \<in> set ys" and "x = y"
    by (rule list_emb_set)
  then show "x \<in> set ys" by simp
qed

lemma assign_step:
  assumes "subseq (map fst p) ks \<and> (\<forall>k s. (k, JStr s) \<in> set p \<longrightarrow> s \<noteq> [])"
    and "k \<notin> set ks" and "c \<longrightarrow> (\<forall>s. v = JStr s \<longrightarrow> s \<noteq> [])"
  shows "subseq (map fst (if c then assign p k v else p)) (ks @ [k]) \<and>
         (\<forall>k' s. (k', JStr s) \<in> set (if c then assign p k v else p) \<longrightarrow> s \<noteq> [])"
proof (cases c)
  case True
  from assms(1) have sub: "subseq (map fst p) ks"
    and ne: "\<forall>k s. (k, JStr s) \<in> set p \<longrightarrow> s \<noteq> []"
    by blast+
  from sub have "set (map fst p) \<subseteq> set ks"
    by (rule subseq_set)
  with assms(2) have "k \<notin> set (map fst p)" by blast
  then have a: "assign p k v = p @ [(k, v)]" by (rule assign_fresh)
  have "subseq [k] [k]" by simp
  with sub have "subseq (map fst p @ [k]) (ks @ [k])"
    by (rule list_emb_append_mono)
  then have s: "subseq (map fst (assign p k v)) (ks @ [k])"
    unfolding a by simp
  from True assms(3) have "\<forall>s. v = JStr s \<longrightarrow> s \<noteq> []" by blast
  with ne have "\<forall>k' s. (k', JStr s) \<in> set (assign p k v) \<longrightarrow> s \<noteq> []"
    unfolding a by auto
  with s True show ?thesis by simp
next
  case False
  from assms(1) have "subseq (map fst p) ks" by (rule conjunct1)
  then have "subseq (map fst p) (ks @ [k])"
    by (rule list_emb_prefix)
  with False assms(1) show ?thesis by simp
qed

lemma currentQuerySnapshot_invariant:
  "subseq (map fst (currentQuerySnapshot st)) snapshotKeyOrder \<and>
   (\<forall>k s. (k, JStr s) \<in> set (currentQuerySnapshot st) \<longrightarrow> s \<noteq> '''')"
proof -
  define p1 where "p1 = (if trim (search st) \<noteq> ''''
                then assign [] ''search'' (JStr (trim (search st))) else [])"
  define p2 where "p2 = (if selectedTypeId st \<noteq> ''''
                then assign p1 ''heritage_type'' (JStr (selectedTypeId st)) else p1)"
  define p3 where "p3 = (if selectedCategoryId st \<noteq> ''''
                then assign p2 ''heritage_category'' (JStr (selectedCategoryId st)) else p2)"
  define p4 where "p4 = (if selectedParishId st \<noteq> ''''
                then assign p3 ''parish'' (JStr (selectedParishId st)) else p3)"
  define p5 where "p5 = (if selectedOrdering st \<noteq> ''''
                then assign p4 ''ordering'' (JStr (selectedOrdering st)) else p4)"
  define p6 where "p6 = (if selectedMedia st = ''images''
                then assign p5 ''has_images'' (JBool True) else p5)"
  define p7 where "p7 = (if selectedMedia st = ''audio''
                then assign p6 ''has_audio'' (JBool True) else p6)"
  define p8 where "p8 = (if selectedMedia st = ''video''
                then assign p7 ''has_video'' (JBool True) else p7)"
  define p9 where "p9 = (if selectedMedia st = ''documents''
                then assign p8 ''has_documents'' (JBool True) else p8)"
  define p10 where "p10 = (if selectedMedia st = ''text''
                 then assign p9 ''text_only'' (JBool True) else p9)"
  have snap: "currentQuerySnapshot st = p10"
    unfolding currentQuerySnapshot_def Let_def p10_def p9_def p8_def p7_def p6_def p5_def
      p4_def p3_def p2_def p1_def ..
  have i0: "subseq (map fst ([] :: params)) [] \<and>
            (\<forall>k s. (k, JStr s) \<in> set ([] :: params) \<longrightarrow> s \<noteq> '''')"
    by simp
  have i1: "subseq (map fst p1) ([] @ [''search'']) \<and>
            (\<forall>k s. (k, JStr s) \<in> set p1 \<longrightarrow> s \<noteq> '''')"
    unfolding p1_def by (rule assign_step [OF i0]) simp_all
  have i2: "subseq (map fst p2) (([] @ [''search'']) @ [''heritage_type'']) \<and>
            (\<forall>k s. (k, JStr s) \<in> set p2 \<longrightarrow> s \<noteq> '''')"
    unfolding p2_def by (rule assign_step [OF i1]) simp_all
  have i3: "subseq (map fst p3)
              ((([] @ [''search'']) @ [''heritage_type'']) @ [''heritage_category'']) \<and>
            (\<forall>k s. (k, JStr s) \<in> set p3 \<longrightarrow> s \<noteq> '''')"
    unfolding p3_def by (rule assign_step [OF i2]) simp_all
  have i4: "subseq (map fst p4)
              (((([] @ [''search'']) @ [''heritage_type'']) @ [''heritage_category''])
                 @ [''parish'']) \<and>
            (\<forall>k s. (k, JStr s) \<in> set p4 \<longrightarrow> s \<noteq> '''')"
    unfolding p4_def by (rule assign_step [OF i3]) simp_all
  have i5: "subseq (map fst p5)
              ((((([] @ [''search'']) @ [''heritage_type'']) @ [''heritage_category''])
                 @ [''parish'']) @ [''ordering'']) \<and>
            (\<forall>k s. (k, JStr s) \<in> set p5 \<longrightarrow> s \<noteq> '''')"
    unfolding p5_def by (rule assign_step [OF i4]) simp_all
  have i6: "subseq (map fst p6)
              (((((([] @ [''search'']) @ [''heritage_type'']) @ [''heritage_category''])
                 @ [''parish'']) @ [''ordering'']) @ [''has_images'']) \<and>
            (\<forall>k s. (k, JStr s) \<in> set p6 \<longrightarrow> s \<noteq> '''')"
    unfolding p6_def by (rule assign_step [OF i5]) simp_all
  have i7: "subseq (map fst p7)
              ((((((([] @ [''search'']) @ [''heritage_type'']) @ [''heritage_category''])
                 @ [''parish'']) @ [''ordering'']) @ [''has_images'']) @ [''has_audio'']) \<and>
            (\<forall>k s. (k, JStr s) \<in> set p7 \<longrightarrow> s \<noteq> '''')"
    unfolding p7_def by (rule assign_step [OF i6]) simp_all
  have i8: "subseq (map fst p8)
              (((((((([] @ [''search'']) @ [''heritage_type'']) @ [''heritage_category''])
                 @ [''parish'']) @ [''ordering'']) @ [''has_images'']) @ [''has_audio''])
                 @ [''has_video'']) \<and>
            (\<forall>k s. (k, JStr s) \<in> set p8 \<longrightarrow> s \<noteq> '''')"
    unfolding p8_def by (rule assign_step [OF i7]) simp_all
  have i9: "subseq (map fst p9)
              ((((((((([] @ [''search'']) @ [''heritage_type'']) @ [''heritage_category''])
                 @ [''parish'']) @ [''ordering'']) @ [''has_images'']) @ [''has_audio''])
                 @ [''has_video'']) @ [''has_documents'']) \<and>
            (\<forall>k s. (k, JStr s) \<in> set p9 \<longrightarrow> s \<noteq> '''')"
    unfolding p9_def by (rule assign_step [OF i8]) simp_all
  have i10: "subseq (map fst p10)
              (((((((((([] @ [''search'']) @ [''heritage_type'']) @ [''heritage_category''])
                 @ [''parish'']) @ [''ordering'']) @ [''has_images'']) @ [''has_audio''])
                 @ [''has_video'']) @ [''has_documents'']) @ [''text_only'']) \<and>
            (\<forall>k s. (k, JStr s) \<in> set p10 \<longrightarrow> s \<noteq> '''')"
    unfolding p10_def by (rule assign_step [OF i9]) simp_all
  then show ?thesis
    unfolding snap by (simp add: snapshotKeyOrder_def)
qed



text \<open>One conditional assignment to a key that is not yet there appends the entry, if
  any.\<close>

lemma assign_append:
  assumes "set (map fst p) \<subseteq> K" and "k \<notin> K"
  shows "(if c then assign p k v else p) = p @ (if c then [(k, v)] else []) \<and>
         set (map fst (p @ (if c then [(k, v)] else []))) \<subseteq> insert k K"
proof -
  from assms have "k \<notin> set (map fst p)" by blast
  then have "assign p k v = p @ [(k, v)]" by (rule assign_fresh)
  with assms(1) show ?thesis by auto
qed

text \<open>The snapshot holds the filter values: each parameter that is set, under its key
  and in the order of the assignments.\<close>

lemma currentQuerySnapshot_shape:
  "currentQuerySnapshot st =
     (if trim (search st) \<noteq> '''' then [(''search'', JStr (trim (search st)))] else []) @
     (if selectedTypeId st \<noteq> '''' then [(''heritage_type'', JStr (selectedTypeId st))] else []) @
     (if selectedCategoryId st \<noteq> ''''
      then [(''heritage_category'', JStr (selectedCategoryId st))] else []) @
     (if selectedParishId st \<noteq> '''' then [(''parish'', JStr (selectedParishId st))] else []) @
     (if selectedOrdering st \<noteq> '''' then [(''ordering'', JStr (selectedOrdering st))] else []) @
     (if selectedMedia st = ''images'' then [(''has_images'', JBool True)] else []) @
     (if selectedMedia st = ''audio'' then [(''has_audio'', JBool True)] else []) @
     (if selectedMedia st = ''video'' then [(''has_video'', JBool True)] else []) @
     (if selectedMedia st = ''documents'' then [(''has_documents'', JBool True)] else []) @
     (if selectedMedia st = ''text'' then [(''text_only'', JBool True)] else [])"
proof -
  define o1 :: params where "o1 = (if trim (search st) \<noteq> ''''
                then [(''search'', JStr (trim (search st)))] else [])"
  define o2 :: params where "o2 = (if selectedTypeId st \<noteq> ''''
                then [(''heritage_type'', JStr (selectedTypeId st))] else [])"
  define o3 :: params where "o3 = (if selectedCategoryId st \<noteq> ''''
                then [(''heritage_category'', JStr (selectedCategoryId st))] else [])"
  define o4 :: params where "o4 = (if selectedParishId st \<noteq> ''''
                then [(''parish'', JStr (selectedParishId st))] else [])"
  define o5 :: params where "o5 = (if selectedOrdering st \<noteq> ''''
                then [(''ordering'', JStr (selectedOrdering st))] else [])"
  define o6 :: params where "o6 = (if selectedMedia st = ''images''
                then [(''has_images'', JBool True)] else [])"
  define o7 :: params where "o7 = (if selectedMedia st = ''audio''
                then [(''has_audio'', JBool True)] else [])"
  define o8 :: params where "o8 = (if selectedMedia st = ''video''
                then [(''has_video'', JBool True)] else [])"
  define o9 :: params where "o9 = (if selectedMedia st = ''documents''
                then [(''has_documents'', JBool True)] else [])"
  define o10 :: params where "o10 = (if selectedMedia st = ''text''
                then [(''text_only'', JBool True)] else [])"
  define p1 where "p1 = (if trim (search st) \<noteq> ''''
                then assign [] ''search'' (JStr (trim (search st))) else [])"
  define p2 where "p2 = (if selectedTypeId st \<noteq> ''''
                then assign p1 ''heritage_type'' (JStr (selectedTypeId st)) else p1)"
  define p3 where "p3 = (if selectedCategoryId st \<noteq> ''''
                then assign p2 ''heritage_category'' (JStr (selectedCategoryId st)) else p2)"
  define p4 where "p4 = (if selectedParishId st \<noteq> ''''
                then assign p3 ''parish'' (JStr (selectedParishId st)) else p3)"
  define p5 where "p5 = (if selectedOrdering st \<noteq> ''''
                then assign p4 ''ordering'' (JStr (selectedOrdering st)) else p4)"
  define p6 where "p6 = (if selectedMedia st = ''images''
                then assign p5 ''has_images'' (JBool True) else p5)"
  define p7 where "p7 = (if selectedMedia st = ''audio''
                then assign p6 ''has_audio'' (JBool True) else p6)"
  define p8 where "p8 = (if selectedMedia st = ''video''
                then assign p7 ''has_video'' (JBool True) else p7)"
  define p9 where "p9 = (if selectedMedia st = ''documents''
                then assign p8 ''has_documents'' (JBool True) else p8)"
  define p10 where "p10 = (if selectedMedia st = ''text''
                 then assign p9 ''text_only'' (JBool True) else p9)"
  have snap: "currentQuerySnapshot st = p10"
    unfolding currentQuerySnapshot_def Let_def p10_def p9_def p8_def p7_def p6_def p5_def
      p4_def p3_def p2_def p1_def ..
  have k0: "set (map fst ([] :: params)) \<subseteq> {}"
    by simp
  have a1: "p1 = [] @ o1 \<and> set (map fst ([] @ o1)) \<subseteq> insert ''search'' {}"
    unfolding p1_def o1_def by (rule assign_append [OF k0]) simp
  then have e1: "p1 = [] @ o1" and k1: "set (map fst p1) \<subseteq> insert ''search'' {}"
    by simp_all
  have a2: "p2 = p1 @ o2 \<and> set (map fst (p1 @ o2)) \<subseteq> insert ''heritage_type'' (insert ''search'' {})"
    unfolding p2_def o2_def by (rule assign_append [OF k1]) simp
  then have e2: "p2 = p1 @ o2"
    and k2: "set (map fst p2) \<subseteq> insert ''heritage_type'' (insert ''search'' {})"
    by simp_all
  have a3: "p3 = p2 @ o3 \<and> set (map fst (p2 @ o3))
      \<subseteq> insert ''heritage_category'' (insert ''heritage_type'' (insert ''search'' {}))"
    unfolding p3_def o3_def by (rule assign_append [OF k2]) simp
  then have e3: "p3 = p2 @ o3"
    and k3: "set (map fst p3)
      \<subseteq> insert ''heritage_category'' (insert ''heritage_type'' (insert ''search'' {}))"
    by simp_all
  have a4: "p4 = p3 @ o4 \<and> set (map fst (p3 @ o4))
      \<subseteq> insert ''parish'' (insert ''heritage_category'' (insert ''heritage_type''
          (insert ''search'' {})))"
    unfolding p4_def o4_def by (rule assign_append [OF k3]) simp
  then have e4: "p4 = p3 @ o4"
    and k4: "set (map fst p4)
      \<subseteq> insert ''parish'' (insert ''heritage_category'' (insert ''heritage_type''
          (insert ''search'' {})))"
    by simp_all
  have a5: "p5 = p4 @ o5 \<and> set (map fst (p4 @ o5))
      \<subseteq> insert ''ordering'' (insert ''parish'' (insert ''heritage_category''
          (insert ''heritage_type'' (insert ''search'' {}))))"
    unfolding p5_def o5_def by (rule assign_append [OF k4]) simp
  then have e5: "p5 = p4 @ o5"
    and k5: "set (map fst p5)
      \<subseteq> insert ''ordering'' (insert ''parish'' (insert ''heritage_category''
          (insert ''heritage_type'' (insert ''search'' {}))))"
    by simp_all
  have a6: "p6 = p5 @ o6 \<and> set (map fst (p5 @ o6))
      \<subseteq> insert ''has_images'' (insert ''ordering'' (insert ''parish''
          (insert ''heritage_category'' (insert ''heritage_type'' (insert ''search'' {})))))"
    unfolding p6_def o6_def by (rule assign_append [OF k5]) simp
  then have e6: "p6 = p5 @ o6"
    and k6: "set (map fst p6)
      \<subseteq> insert ''has_images'' (insert ''ordering'' (insert ''parish''
          (insert ''heritage_category'' (insert ''heritage_type'' (insert ''search'' {})))))"
    by simp_all
  have a7: "p7 = p6 @ o7 \<and> set (map fst (p6 @ o7))
      \<subseteq> insert ''has_audio'' (insert ''has_images'' (insert ''ordering'' (insert ''parish''
          (insert ''heritage_category'' (insert ''heritage_type'' (insert ''search'' {}))))))"
    unfolding p7_def o7_def by (rule assign_append [OF k6]) simp
  then have e7: "p7 = p6 @ o7"
    and k7: "set (map fst p7)
      \<subseteq> insert ''has_audio'' (insert ''has_images'' (insert ''ordering'' (insert ''parish''
          (insert ''heritage_category'' (insert ''heritage_type'' (insert ''search'' {}))))))"
    by simp_all
  have a8: "p8 = p7 @ o8 \<and> set (map fst (p7 @ o8))
      \<subseteq> insert ''has_video'' (insert ''has_audio'' (insert ''has_images'' (insert ''ordering''
          (insert ''parish'' (insert ''heritage_category'' (insert ''heritage_type''
          (insert ''search'' {})))))))"
    unfolding p8_def o8_def by (rule assign_append [OF k7]) simp
  then have e8: "p8 = p7 @ o8"
    and k8: "set (map fst p8)
      \<subseteq> insert ''has_video'' (insert ''has_audio'' (insert ''has_images'' (insert ''ordering''
          (insert ''parish'' (insert ''heritage_category'' (insert ''heritage_type''
          (insert ''search'' {})))))))"
    by simp_all
  have a9: "p9 = p8 @ o9 \<and> set (map fst (p8 @ o9))
      \<subseteq> insert ''has_documents'' (insert ''has_video'' (insert ''has_audio''
          (insert ''has_images'' (insert ''ordering'' (insert ''parish''
          (insert ''heritage_category'' (insert ''heritage_type'' (insert ''search'' {}))))))))"
    unfolding p9_def o9_def by (rule assign_append [OF k8]) simp
  then have e9: "p9 = p8 @ o9"
    and k9: "set (map fst p9)
      \<subseteq> insert ''has_documents'' (insert ''has_video'' (insert ''has_audio''
          (insert ''has_images'' (insert ''ordering'' (insert ''parish''
          (insert ''heritage_category'' (insert ''heritage_type'' (insert ''search'' {}))))))))"
    by simp_all
  have a10: "p10 = p9 @ o10 \<and> set (map fst (p9 @ o10))
      \<subseteq> insert ''text_only'' (insert ''has_documents'' (insert ''has_video'' (insert ''has_audio''
          (insert ''has_images'' (insert ''ordering'' (insert ''parish''
          (insert ''heritage_category'' (insert ''heritage_type'' (insert ''search'' {})))))))))"
    unfolding p10_def o10_def by (rule assign_append [OF k9]) simp
  then have e10: "p10 = p9 @ o10"
    by simp
  have "p10 = o1 @ o2 @ o3 @ o4 @ o5 @ o6 @ o7 @ o8 @ o9 @ o10"
    unfolding e10 e9 e8 e7 e6 e5 e4 e3 e2 e1 by (simp only: append_Nil append_assoc)
  then show ?thesis
    unfolding snap o1_def o2_def o3_def o4_def o5_def o6_def o7_def o8_def o9_def o10_def .
qed

text \<open>The snapshot is a function of the values that its getter reads.\<close>

lemma currentQuerySnapshot_inputs:
  "snapshotInputs a = snapshotInputs b \<Longrightarrow> currentQuerySnapshot a = currentQuerySnapshot b"
  unfolding currentQuerySnapshot_shape by (simp add: snapshotInputs_def)

lemma inputChanged_triggers:
  "currentQuerySnapshot a \<noteq> currentQuerySnapshot b \<Longrightarrow> inputChanged a b"
  unfolding inputChanged_def using currentQuerySnapshot_inputs by blast

section \<open>The check for an offline copy\<close>

text \<open>A run of the getter gives true exactly on a match, and a run that gives true has
  read the snapshot.\<close>

lemma hasOfflineBundleGetter_iff:
  "fst (hasOfflineBundleGetter st) \<longleftrightarrow> matchesStoredManifest st"
  by (auto simp add: hasOfflineBundleGetter_def matchesStoredManifest_def stringify_inj
      split: option.splits stored.splits)

lemma hasOfflineBundleGetter_tracks:
  "fst (hasOfflineBundleGetter st) \<Longrightarrow> snd (hasOfflineBundleGetter st)"
  by (auto simp add: hasOfflineBundleGetter_def split: option.splits stored.splits)

lemma cachedTrueIsMatch_mounted: "cachedTrueIsMatch (mounted st)"
  by (simp add: cachedTrueIsMatch_def mounted_def)

lemma cachedTrueIsMatch_read:
  assumes "cachedTrueIsMatch v"
  shows "cachedTrueIsMatch (snd (hasOfflineBundleForCurrentQuery v))"
    and "fst (hasOfflineBundleForCurrentQuery v) \<Longrightarrow> matchesStoredManifest (refs v)"
    and "refs (snd (hasOfflineBundleForCurrentQuery v)) = refs v"
proof -
  show "refs (snd (hasOfflineBundleForCurrentQuery v)) = refs v"
    by (simp add: hasOfflineBundleForCurrentQuery_def split_beta split: option.splits)
  show "cachedTrueIsMatch (snd (hasOfflineBundleForCurrentQuery v))"
  proof (cases "cachedBundleCheck v")
    case None
    then show ?thesis
      using hasOfflineBundleGetter_iff [of "refs v"] hasOfflineBundleGetter_tracks [of "refs v"]
      by (auto simp add: hasOfflineBundleForCurrentQuery_def cachedTrueIsMatch_def split_beta)
  next
    case (Some b)
    with assms show ?thesis
      by (simp add: hasOfflineBundleForCurrentQuery_def)
  qed
  show "matchesStoredManifest (refs v)" if "fst (hasOfflineBundleForCurrentQuery v)"
  proof (cases "cachedBundleCheck v")
    case None
    with that show ?thesis
      using hasOfflineBundleGetter_iff [of "refs v"]
      by (simp add: hasOfflineBundleForCurrentQuery_def split_beta)
  next
    case (Some b)
    with that assms show ?thesis
      by (simp add: hasOfflineBundleForCurrentQuery_def cachedTrueIsMatch_def)
  qed
qed

lemma matchesStoredManifest_cong:
  "offlineArea st' = offlineArea st \<Longrightarrow> currentQuerySnapshot st' = currentQuerySnapshot st \<Longrightarrow>
     matchesStoredManifest st' = matchesStoredManifest st"
  by (simp add: matchesStoredManifest_def split: option.splits stored.splits)

lemma cachedTrueIsMatch_assignRefs:
  assumes tr: "\<And>a b. currentQuerySnapshot a \<noteq> currentQuerySnapshot b \<Longrightarrow> triggers a b"
    and area: "offlineArea st' = offlineArea (refs v)"
    and inv: "cachedTrueIsMatch v"
  shows "cachedTrueIsMatch (assignRefs triggers st' v)"
proof (cases "tracksSnapshot v \<and> triggers (refs v) st'")
  case True
  then show ?thesis
    by (simp add: assignRefs_def cachedTrueIsMatch_def)
next
  case False
  show ?thesis
  proof (cases "cachedBundleCheck v = Some True")
    case yes: True
    with inv have t: "tracksSnapshot v" and m: "matchesStoredManifest (refs v)"
      by (simp_all add: cachedTrueIsMatch_def)
    from False t have "\<not> triggers (refs v) st'" by simp
    with tr have "currentQuerySnapshot st' = currentQuerySnapshot (refs v)"
      by metis
    with area have "matchesStoredManifest st' = matchesStoredManifest (refs v)"
      by (rule matchesStoredManifest_cong)
    with m have "matchesStoredManifest st'"
      by simp
    with False t show ?thesis
      by (simp add: assignRefs_def cachedTrueIsMatch_def)
  next
    case no: False
    with False show ?thesis
      by (simp add: assignRefs_def cachedTrueIsMatch_def)
  qed
qed

lemma offlineArea_setRef: "offlineArea (setRef r s st) = offlineArea st"
  by (cases r) simp_all

text \<open>A download leaves the query as it is and either leaves the stored item as it is
  or stores a manifest of the current query.\<close>

lemma downloadForOffline_area:
  "currentQuerySnapshot (snd (downloadForOffline e st)) = currentQuerySnapshot st \<and>
   (offlineArea (snd (downloadForOffline e st)) = offlineArea st \<or>
    (\<exists>n. offlineArea (snd (downloadForOffline e st))
            = Some (Manifest (currentQuerySnapshot st) (clock e) n)))"
proof (cases "navigatorOnLine e")
  case False
  then show ?thesis
    by (simp add: downloadForOffline_offline currentQuerySnapshot_offline_fields)
next
  case True
  show ?thesis
  proof (cases "snd (pageLoop e (currentQuerySnapshot st) 1 0)")
    case (Inl err)
    then show ?thesis
      by (simp add: downloadForOffline_online(2) [OF True] currentQuerySnapshot_offline_fields)
  next
    case (Inr n)
    then show ?thesis
      by (simp add: downloadForOffline_online(2) [OF True] currentQuerySnapshot_offline_fields)
  qed
qed

lemma matchesStoredManifest_download:
  "matchesStoredManifest st \<Longrightarrow> matchesStoredManifest (snd (downloadForOffline e st))"
proof -
  assume m: "matchesStoredManifest st"
  let ?st' = "snd (downloadForOffline e st)"
  from downloadForOffline_area [of e st]
  have q: "currentQuerySnapshot ?st' = currentQuerySnapshot st"
    and a: "offlineArea ?st' = offlineArea st \<or>
      (\<exists>n. offlineArea ?st' = Some (Manifest (currentQuerySnapshot st) (clock e) n))"
    by blast+
  from a show "matchesStoredManifest ?st'"
  proof
    assume "offlineArea ?st' = offlineArea st"
    then have "matchesStoredManifest ?st' = matchesStoredManifest st"
      using q by (rule matchesStoredManifest_cong)
    with m show ?thesis by simp
  next
    assume "\<exists>n. offlineArea ?st' = Some (Manifest (currentQuerySnapshot st) (clock e) n)"
    with q show ?thesis by (auto simp add: matchesStoredManifest_def)
  qed
qed

lemma cachedTrueIsMatch_step:
  assumes tr: "\<And>a b. currentQuerySnapshot a \<noteq> currentQuerySnapshot b \<Longrightarrow> triggers a b"
    and inv: "cachedTrueIsMatch v"
  shows "cachedTrueIsMatch (step triggers ev v)"
proof (cases ev)
  case (SetRef r s)
  have "cachedTrueIsMatch (assignRefs triggers (setRef r s (refs v)) v)"
    using tr offlineArea_setRef inv by (rule cachedTrueIsMatch_assignRefs)
  with SetRef show ?thesis by simp
next
  case (SetTypes ts)
  have "offlineArea ((refs v)\<lparr>types := ts\<rparr>) = offlineArea (refs v)" by simp
  with tr have "cachedTrueIsMatch (assignRefs triggers ((refs v)\<lparr>types := ts\<rparr>) v)"
    using inv by (rule cachedTrueIsMatch_assignRefs)
  with SetTypes show ?thesis by simp
next
  case (DownloadForOffline e)
  with inv show ?thesis
    by (simp add: cachedTrueIsMatch_def matchesStoredManifest_download)
next
  case Render
  with inv show ?thesis
    by (simp add: cachedTrueIsMatch_read(1))
qed

lemma cachedTrueIsMatch_runView:
  assumes tr: "\<And>a b. currentQuerySnapshot a \<noteq> currentQuerySnapshot b \<Longrightarrow> triggers a b"
  shows "cachedTrueIsMatch v \<Longrightarrow> cachedTrueIsMatch (runView triggers evs v)"
proof (induction evs arbitrary: v)
  case Nil
  then show ?case by simp
next
  case (Cons ev evs)
  from tr Cons.prems have "cachedTrueIsMatch (step triggers ev v)"
    by (rule cachedTrueIsMatch_step)
  then have "cachedTrueIsMatch (runView triggers evs (step triggers ev v))"
    by (rule Cons.IH)
  then show ?case by simp
qed

text \<open>Whatever happened in the view since it was mounted, a read of the check that
  gives true finds a match.\<close>

lemma shown_true_is_match:
  assumes tr: "\<And>a b. currentQuerySnapshot a \<noteq> currentQuerySnapshot b \<Longrightarrow> triggers a b"
    and "fst (hasOfflineBundleForCurrentQuery (runView triggers evs (mounted st0)))"
  shows "matchesStoredManifest (refs (runView triggers evs (mounted st0)))"
proof -
  have "cachedTrueIsMatch (runView triggers evs (mounted st0))"
    using tr cachedTrueIsMatch_mounted by (rule cachedTrueIsMatch_runView)
  then show ?thesis
    using assms(2) by (rule cachedTrueIsMatch_read(2))
qed

text \<open>
  Claim C7, as stated, fails on the order of the keys: the signature lists the keys in
  the order in which the snapshot assigns them, which is not sorted. For a search for
  ``church'' with the default ordering the keys are \<^verbatim>\<open>search\<close>, then \<^verbatim>\<open>ordering\<close>.
\<close>

theorem snapshot_keys_not_sorted:
  "map fst (currentQuerySnapshot exploring) = [''search'', ''ordering''] \<and>
   \<not> sorted (map fst (currentQuerySnapshot exploring)) \<and>
   stringify (currentQuerySnapshot exploring)
     = ''{'' @ quote ''search'' @ '':'' @ quote ''church'' @ '','' @
               quote ''ordering'' @ '':'' @ quote ''-created_at'' @ ''}''"
  by (simp add: currentQuerySnapshot_exploring(1) stringify_def member_text_def
      quote_def)


text \<open>
  Claim C7, amended. The query signature is the JSON text of the filter parameters
  listed in one fixed order of keys (search, heritage_type, heritage_category, parish,
  ordering, then the media flag), not sorted: it holds the trimmed search term, the id of
  the selected type, the category, the parish, the ordering and the media flag, each one
  only when it is set, so no string value in it is empty; pagination state (\<^verbatim>\<open>page\<close>,
  \<^verbatim>\<open>page_size\<close>) is not part of it. Two queries have the same JSON text only if they
  are the same, so the comparison that the has-offline-copy check makes, between the JSON
  text of the stored manifest's query and that of the current query, is true exactly on
  an exact match (a stored value without a query counts as the empty query). The view
  reads the check through a cached value; whatever happened in the view since it was
  mounted, the check reads true only when the current query exactly matches the stored
  manifest's query: any difference in a parameter yields false.
\<close>

theorem query_signature_exact_match:
  "currentQuerySnapshot st =
     (if trim (search st) \<noteq> [] then [(''search'', JStr (trim (search st)))] else []) @
     (if selectedTypeId st \<noteq> [] then [(''heritage_type'', JStr (selectedTypeId st))] else []) @
     (if selectedCategoryId st \<noteq> []
      then [(''heritage_category'', JStr (selectedCategoryId st))] else []) @
     (if selectedParishId st \<noteq> [] then [(''parish'', JStr (selectedParishId st))] else []) @
     (if selectedOrdering st \<noteq> [] then [(''ordering'', JStr (selectedOrdering st))] else []) @
     (if selectedMedia st = ''images'' then [(''has_images'', JBool True)] else []) @
     (if selectedMedia st = ''audio'' then [(''has_audio'', JBool True)] else []) @
     (if selectedMedia st = ''video'' then [(''has_video'', JBool True)] else []) @
     (if selectedMedia st = ''documents'' then [(''has_documents'', JBool True)] else []) @
     (if selectedMedia st = ''text'' then [(''text_only'', JBool True)] else []) \<and>
   subseq (map fst (currentQuerySnapshot st)) snapshotKeyOrder \<and>
   (\<forall>k s. (k, JStr s) \<in> set (currentQuerySnapshot st) \<longrightarrow> s \<noteq> []) \<and>
   ''page'' \<notin> set (map fst (currentQuerySnapshot st)) \<and>
   ''page_size'' \<notin> set (map fst (currentQuerySnapshot st)) \<and>
   (stringify p = stringify p' \<longleftrightarrow> p = p') \<and>
   (fst (hasOfflineBundleGetter st) \<longleftrightarrow> matchesStoredManifest st) \<and>
   (matchesStoredManifest st \<longleftrightarrow>
      (\<exists>q d n. offlineArea st = Some (Manifest q d n) \<and> q = currentQuerySnapshot st) \<or>
      (offlineArea st = Some NoQuery \<and> currentQuerySnapshot st = [])) \<and>
   ((\<forall>a b. currentQuerySnapshot a \<noteq> currentQuerySnapshot b \<longrightarrow> triggers a b) \<longrightarrow>
    fst (hasOfflineBundleForCurrentQuery (runView triggers evs (mounted start))) \<longrightarrow>
    matchesStoredManifest (refs (runView triggers evs (mounted start))))"
proof -
  note inv = currentQuerySnapshot_invariant [of st]
  from inv have "subseq (map fst (currentQuerySnapshot st)) snapshotKeyOrder"
    by (rule conjunct1)
  then have "set (map fst (currentQuerySnapshot st)) \<subseteq> set snapshotKeyOrder"
    by (rule subseq_set)
  then have nopage: "''page'' \<notin> set (map fst (currentQuerySnapshot st))"
    "''page_size'' \<notin> set (map fst (currentQuerySnapshot st))"
    by (auto simp add: snapshotKeyOrder_def)
  have words: "matchesStoredManifest st \<longleftrightarrow>
      (\<exists>q d n. offlineArea st = Some (Manifest q d n) \<and> q = currentQuerySnapshot st) \<or>
      (offlineArea st = Some NoQuery \<and> currentQuerySnapshot st = [])"
    by (auto simp add: matchesStoredManifest_def split: option.splits stored.splits)
  have shown: "(\<forall>a b. currentQuerySnapshot a \<noteq> currentQuerySnapshot b \<longrightarrow> triggers a b) \<longrightarrow>
    fst (hasOfflineBundleForCurrentQuery (runView triggers evs (mounted start))) \<longrightarrow>
    matchesStoredManifest (refs (runView triggers evs (mounted start)))"
    using shown_true_is_match [of triggers evs start] by blast
  from currentQuerySnapshot_shape [of st] inv nopage stringify_inj [of p p']
    hasOfflineBundleGetter_iff [of st] words shown
  show ?thesis
    by (intro conjI) blast+
qed

lemma showNat_2: "showNat 2 = ''2''"
  by (simp add: char_of_def bit_0)

lemma exploringDownloaded_snapshot:
  "currentQuerySnapshot exploringDownloaded
     = [(''search'', JStr ''church''), (''ordering'', JStr ''-created_at'')]"
  "currentQuerySnapshot (exploringDownloaded\<lparr>search := ''mill''\<rparr>)
     = [(''search'', JStr ''mill''), (''ordering'', JStr ''-created_at'')]"
  by (simp_all add: currentQuerySnapshot_shape exploringDownloaded_def exploring_def
      selectedTypeId_def trim_def isWhitespace_def)

lemma smallEnv_downloaded:
  "snd (downloadForOffline smallEnv exploringAgain) = exploringDownloaded"
  "snd (downloadForOffline smallEnv exploring) = exploringDownloaded"
proof -
  have on: "navigatorOnLine smallEnv"
    by (simp add: smallEnv_def)
  show "snd (downloadForOffline smallEnv exploringAgain) = exploringDownloaded"
    by (simp add: smallEnv_download exploringDownloaded_def currentQuerySnapshot_exploring(1))
  have "snd (downloadForOffline smallEnv exploring) =
      exploring\<lparr>offlineDownloadError := None,
        offlineArea := Some (Manifest (currentQuerySnapshot exploring) (clock smallEnv) 3),
        offlineDownloading := False\<rparr>"
    by (simp only: downloadForOffline_online(2) [OF on] smallEnv_pageLoop snd_conv sum.case)
  then show "snd (downloadForOffline smallEnv exploring) = exploringDownloaded"
    by (simp add: exploringDownloaded_def currentQuerySnapshot_exploring(1))
      (simp add: exploring_def smallEnv_def)
qed

text \<open>The run of \<open>downloadAndRetype\<close>: the computed holds the value false from the first
  rendering until the search is changed, and is marked for a new run by each change.\<close>

lemma downloadAndRetype_run:
  "runView inputChanged downloadAndRetype (mounted exploringAgain) =
     \<lparr>refs = exploringDownloaded, cachedBundleCheck = None, tracksSnapshot = True\<rparr>"
proof -
  have g0: "hasOfflineBundleGetter exploringAgain = (False, True)"
  proof -
    have "offlineArea exploringAgain = Some (Manifest [(''search'', JStr ''mill'')] 1 9)"
      by (simp add: exploringAgain_def earlierManifest_def)
    then show ?thesis
      by (simp add: hasOfflineBundleGetter_def stringify_inj currentQuerySnapshot_exploring)
  qed
  have v1: "step inputChanged Render (mounted exploringAgain) =
      \<lparr>refs = exploringAgain, cachedBundleCheck = Some False, tracksSnapshot = True\<rparr>"
    by (simp add: hasOfflineBundleForCurrentQuery_def mounted_def g0)
  have v2: "step inputChanged (DownloadForOffline smallEnv)
        \<lparr>refs = exploringAgain, cachedBundleCheck = Some False, tracksSnapshot = True\<rparr> =
      \<lparr>refs = exploringDownloaded, cachedBundleCheck = Some False, tracksSnapshot = True\<rparr>"
    by (simp add: smallEnv_downloaded)
  have v3: "step inputChanged Render
        \<lparr>refs = exploringDownloaded, cachedBundleCheck = Some False, tracksSnapshot = True\<rparr> =
      \<lparr>refs = exploringDownloaded, cachedBundleCheck = Some False, tracksSnapshot = True\<rparr>"
    by (simp add: hasOfflineBundleForCurrentQuery_def)
  have c4: "inputChanged exploringDownloaded (exploringDownloaded\<lparr>search := ''mill''\<rparr>)"
    by (simp add: inputChanged_def snapshotInputs_def exploringDownloaded_def exploring_def)
  have v4: "step inputChanged (SetRef SearchRef ''mill'')
        \<lparr>refs = exploringDownloaded, cachedBundleCheck = Some False, tracksSnapshot = True\<rparr> =
      \<lparr>refs = exploringDownloaded\<lparr>search := ''mill''\<rparr>, cachedBundleCheck = None,
        tracksSnapshot = True\<rparr>"
    by (simp add: assignRefs_def c4)
  have g5: "hasOfflineBundleGetter (exploringDownloaded\<lparr>search := ''mill''\<rparr>) = (False, True)"
  proof -
    have "offlineArea (exploringDownloaded\<lparr>search := ''mill''\<rparr>) =
        Some (Manifest [(''search'', JStr ''church''), (''ordering'', JStr ''-created_at'')] 7 3)"
      by (simp add: exploringDownloaded_def)
    then show ?thesis
      by (simp add: hasOfflineBundleGetter_def stringify_inj exploringDownloaded_snapshot)
  qed
  have v5: "step inputChanged Render
        \<lparr>refs = exploringDownloaded\<lparr>search := ''mill''\<rparr>, cachedBundleCheck = None,
          tracksSnapshot = True\<rparr> =
      \<lparr>refs = exploringDownloaded\<lparr>search := ''mill''\<rparr>, cachedBundleCheck = Some False,
        tracksSnapshot = True\<rparr>"
    by (simp add: hasOfflineBundleForCurrentQuery_def g5)
  have again: "exploringDownloaded\<lparr>search := ''mill'', search := ''church''\<rparr> = exploringDownloaded"
    by (simp add: exploringDownloaded_def exploring_def)
  have c6: "inputChanged (exploringDownloaded\<lparr>search := ''mill''\<rparr>) exploringDownloaded"
    by (simp add: inputChanged_def snapshotInputs_def exploringDownloaded_def exploring_def)
  have v6: "step inputChanged (SetRef SearchRef ''church'')
        \<lparr>refs = exploringDownloaded\<lparr>search := ''mill''\<rparr>, cachedBundleCheck = Some False,
          tracksSnapshot = True\<rparr> =
      \<lparr>refs = exploringDownloaded, cachedBundleCheck = None, tracksSnapshot = True\<rparr>"
    by (simp add: assignRefs_def again c6)
  show ?thesis
    unfolding downloadAndRetype_def
    by (simp only: runView.simps v1 v2 v3 v4 v5 v6)
qed

text \<open>The view reads the cached value. A view mounted with no stored item reads false
  in its first rendering, by a run of the getter that read no reactive value; after the
  download of a bundle for the query it shows, a run of the getter would give true, and
  the view still reads false.\<close>

lemma cached_check_after_download:
  "fst (hasOfflineBundleForCurrentQuery (runView triggers renderThenDownload (mounted exploring)))
     = False \<and>
   fst (hasOfflineBundleGetter (refs (runView triggers renderThenDownload (mounted exploring))))
     = True"
proof -
  have g0: "hasOfflineBundleGetter exploring = (False, False)"
    by (simp add: hasOfflineBundleGetter_def exploring_def)
  have v1: "step triggers Render (mounted exploring) =
      \<lparr>refs = exploring, cachedBundleCheck = Some False, tracksSnapshot = False\<rparr>"
    by (simp add: hasOfflineBundleForCurrentQuery_def mounted_def g0)
  have v2: "step triggers (DownloadForOffline smallEnv)
        \<lparr>refs = exploring, cachedBundleCheck = Some False, tracksSnapshot = False\<rparr> =
      \<lparr>refs = exploringDownloaded, cachedBundleCheck = Some False, tracksSnapshot = False\<rparr>"
    by (simp add: smallEnv_downloaded)
  have run: "runView triggers renderThenDownload (mounted exploring) =
      \<lparr>refs = exploringDownloaded, cachedBundleCheck = Some False, tracksSnapshot = False\<rparr>"
    unfolding renderThenDownload_def by (simp only: runView.simps v1 v2)
  have stored: "offlineArea exploringDownloaded
     = Some (Manifest [(''search'', JStr ''church''), (''ordering'', JStr ''-created_at'')] 7 3)"
    by (simp add: exploringDownloaded_def)
  show ?thesis
    by (simp add: run hasOfflineBundleForCurrentQuery_def hasOfflineBundleGetter_def stored
        exploringDownloaded_snapshot)
qed

theorem query_signature_exact_match_witness:
  "currentQuerySnapshot filtered =
     [(''search'', JStr ''mill''), (''heritage_type'', JStr ''2''),
      (''heritage_category'', JStr ''4''), (''parish'', JStr ''7''),
      (''ordering'', JStr ''-view_count''), (''has_audio'', JBool True)] \<and>
   fst (hasOfflineBundleForCurrentQuery
          (runView inputChanged downloadAndRetype (mounted exploringAgain))) \<and>
   offlineArea (refs (runView inputChanged downloadAndRetype (mounted exploringAgain)))
     = Some (Manifest [(''search'', JStr ''church''), (''ordering'', JStr ''-created_at'')] 7 3) \<and>
   currentQuerySnapshot (refs (runView inputChanged downloadAndRetype (mounted exploringAgain)))
     = [(''search'', JStr ''church''), (''ordering'', JStr ''-created_at'')] \<and>
   \<not> fst (hasOfflineBundleGetter exploringAgain) \<and>
   \<not> fst (hasOfflineBundleGetter exploring)"
proof -
  let ?v = "runView inputChanged downloadAndRetype (mounted exploringAgain)"
  note claim = query_signature_exact_match [where triggers = inputChanged
      and evs = downloadAndRetype and start = exploringAgain]
  have tr: "\<forall>a b. currentQuerySnapshot a \<noteq> currentQuerySnapshot b \<longrightarrow> inputChanged a b"
    using inputChanged_triggers by blast
  have a: "currentQuerySnapshot filtered =
     [(''search'', JStr ''mill''), (''heritage_type'', JStr ''2''),
      (''heritage_category'', JStr ''4''), (''parish'', JStr ''7''),
      (''ordering'', JStr ''-view_count''), (''has_audio'', JBool True)]"
    using claim [of filtered, THEN conjunct1]
    by (simp add: filtered_def selectedTypeId_def trim_def isWhitespace_def showNat_2
        del: showNat.simps)
  have stored: "offlineArea exploringDownloaded
     = Some (Manifest [(''search'', JStr ''church''), (''ordering'', JStr ''-created_at'')] 7 3)"
    by (simp add: exploringDownloaded_def)
  have b: "fst (hasOfflineBundleForCurrentQuery ?v)"
    by (simp add: downloadAndRetype_run hasOfflineBundleForCurrentQuery_def
        hasOfflineBundleGetter_def stored exploringDownloaded_snapshot)
  have area: "offlineArea (refs ?v)
     = Some (Manifest [(''search'', JStr ''church''), (''ordering'', JStr ''-created_at'')] 7 3)"
    by (simp add: downloadAndRetype_run stored)
  from claim [of exploring] tr b have "matchesStoredManifest (refs ?v)"
    by blast
  with area have c: "currentQuerySnapshot (refs ?v)
     = [(''search'', JStr ''church''), (''ordering'', JStr ''-created_at'')]"
    by (simp add: matchesStoredManifest_def)
  from claim [of exploringAgain]
  have gd: "fst (hasOfflineBundleGetter exploringAgain) \<longleftrightarrow> matchesStoredManifest exploringAgain"
    by blast
  have "offlineArea exploringAgain = Some (Manifest [(''search'', JStr ''mill'')] 1 9)"
    by (simp add: exploringAgain_def earlierManifest_def)
  then have "\<not> matchesStoredManifest exploringAgain"
    by (simp add: matchesStoredManifest_def currentQuerySnapshot_exploring)
  with gd have d: "\<not> fst (hasOfflineBundleGetter exploringAgain)"
    by simp
  from claim [of exploring]
  have ge: "fst (hasOfflineBundleGetter exploring) \<longleftrightarrow> matchesStoredManifest exploring"
    by blast
  have "offlineArea exploring = None"
    by (simp add: exploring_def)
  then have "\<not> matchesStoredManifest exploring"
    by (simp add: matchesStoredManifest_def)
  with ge have e: "\<not> fst (hasOfflineBundleGetter exploring)"
    by simp
  from a b area c d e show ?thesis by blast
qed

end
